theory Spec2Isabelle
  imports Main
begin

section \<open>Data model of the dependency graph\<close>

text \<open>
  The five node kinds of \<^verbatim>\<open>DepGraph\<close>, in the order of
  \<^verbatim>\<open>(WORKER, JOB, COMPONENTSETUP, CLOCKMASTER, COMPONENTSTART) = range(0,5)\<close>.
\<close>

datatype kind = WORKER | JOB | COMPONENTSETUP | CLOCKMASTER | COMPONENTSTART

definition types :: "kind list" where
  "types = [WORKER, JOB, COMPONENTSETUP, CLOCKMASTER, COMPONENTSTART]"

text \<open>
  The value stored under the key \<^verbatim>\<open>'source'\<close> of a component's config: the
  config parser hands over either one string or a list of strings.
\<close>

datatype srcval = Str string | StrList "string list"

text \<open>
  A component handle. Python compares handles by identity, so the record carries an
  identity field next to the attributes read through \<^verbatim>\<open>component.get(...)\<close>:
  \<^verbatim>\<open>name\<close>, \<^verbatim>\<open>parent\<close>, \<^verbatim>\<open>workerRequested\<close> and the
  \<^verbatim>\<open>'source'\<close> entry of \<^verbatim>\<open>config\<close> (\<open>None\<close> when the dict has no such key).
\<close>

record component =
  ident :: nat
  name :: string
  parent :: string
  workerRequested :: "string option"
  source :: "srcval option"

text \<open>The first component of a vertex: a worker name (a string) or a component handle.\<close>

datatype obj = W string | C component

type_synonym vertex = "obj \<times> kind"

text \<open>
  Exceptions. Every one of them is a Python \<^verbatim>\<open>KeyError\<close> except
  \<open>WouldCycle\<close> and \<open>AttributeError\<close>; \<open>MissingState\<close> is the
  \<^verbatim>\<open>KeyError\<close> of a lookup or \<^verbatim>\<open>del\<close> in \<^verbatim>\<open>_state\<close> on an absent key.
\<close>

datatype error =
    AlreadyExists
  | NotFound
  | WouldCycle
  | PreconditionFailed
  | Unresolved string
  | MissingState
  | AttributeError

fun isKeyError :: "error \<Rightarrow> bool" where
  "isKeyError WouldCycle = False"
| "isKeyError AttributeError = False"
| "isKeyError _ = True"

section \<open>The typed DAG\<close>

text \<open>
  Modelled from the spec: the module \<^verbatim>\<open>flumotion.common.dag\<close> (class \<^verbatim>\<open>DAG\<close>) is
  imported by the source but is not part of it. The definitions of this section follow
  the public contract of the typed DAG in section 4.1 of the specification. Vertices are
  kept in insertion order; an edge is a pair of vertices.
\<close>

record dag =
  nodes :: "vertex list"
  edges :: "(vertex \<times> vertex) list"

definition empty_dag :: dag where
  "empty_dag = \<lparr>nodes = [], edges = []\<rparr>"

text \<open>Modelled from the spec: \<^verbatim>\<open>HasNode(obj, kind)\<close>.\<close>

definition hasNode :: "dag \<Rightarrow> obj \<Rightarrow> kind \<Rightarrow> bool" where
  "hasNode d x k = ((x, k) \<in> set (nodes d))"

text \<open>Modelled from the spec: \<^verbatim>\<open>AddNode\<close> fails with AlreadyExists if the vertex is present.\<close>

definition addNode :: "dag \<Rightarrow> obj \<Rightarrow> kind \<Rightarrow> error + dag" where
  "addNode d x k =
     (if hasNode d x k then Inl AlreadyExists
      else Inr (d\<lparr>nodes := nodes d @ [(x, k)]\<rparr>))"

text \<open>
  Modelled from the spec: \<^verbatim>\<open>RemoveNode\<close> fails with NotFound if the vertex is absent and
  removes all incident edges otherwise.
\<close>

definition removeNode :: "dag \<Rightarrow> obj \<Rightarrow> kind \<Rightarrow> error + dag" where
  "removeNode d x k =
     (if \<not> hasNode d x k then Inl NotFound
      else Inr (d\<lparr>nodes := removeAll (x, k) (nodes d),
                  edges := filter (\<lambda>e. fst e \<noteq> (x, k) \<and> snd e \<noteq> (x, k)) (edges d)\<rparr>))"

text \<open>
  Modelled from the spec: \<^verbatim>\<open>GetOffspringTyped\<close>, the transitive descendants reachable
  by forward traversal from the vertex, excluding the start vertex itself.
\<close>

definition getOffspringTyped :: "dag \<Rightarrow> obj \<Rightarrow> kind \<Rightarrow> vertex list" where
  "getOffspringTyped d x k =
     filter (\<lambda>v. v \<noteq> (x, k) \<and> ((x, k), v) \<in> (set (edges d))\<^sup>+) (nodes d)"

text \<open>
  Modelled from the spec: \<^verbatim>\<open>AddEdge\<close> fails with NotFound if either endpoint is
  absent, with AlreadyExists if that exact edge exists, and with WouldCycle if the
  proposed parent is reached from the proposed child; it never partially modifies.
\<close>

definition addEdge :: "dag \<Rightarrow> obj \<Rightarrow> obj \<Rightarrow> kind \<Rightarrow> kind \<Rightarrow> error + dag" where
  "addEdge d p c pk ck =
     (if \<not> hasNode d p pk \<or> \<not> hasNode d c ck then Inl NotFound
      else if ((p, pk), (c, ck)) \<in> set (edges d) then Inl AlreadyExists
      else if (p, pk) = (c, ck) \<or> ((c, ck), (p, pk)) \<in> (set (edges d))\<^sup>+ then Inl WouldCycle
      else Inr (d\<lparr>edges := edges d @ [((p, pk), (c, ck))]\<rparr>))"

text \<open>Modelled from the spec: \<^verbatim>\<open>GetAllNodesByKind\<close>, here in insertion order.\<close>

definition getAllNodesByType :: "dag \<Rightarrow> kind \<Rightarrow> obj list" where
  "getAllNodesByType d k = map fst (filter (\<lambda>v. snd v = k) (nodes d))"

text \<open>
  Modelled from the spec: \<^verbatim>\<open>Sort\<close>, Kahn's algorithm with the insertion-order
  tiebreak. Each round emits, in insertion order, the remaining vertices none of whose
  parents remains, so that vertices of equal depth come out in insertion order.
\<close>

definition ready :: "(vertex \<times> vertex) list \<Rightarrow> vertex list \<Rightarrow> vertex list" where
  "ready es rem = filter (\<lambda>v. \<not> (\<exists>p \<in> set rem. (p, v) \<in> set es)) rem"

function kahn :: "(vertex \<times> vertex) list \<Rightarrow> vertex list \<Rightarrow> vertex list" where
  "kahn es rem =
     (if ready es rem = [] then []
      else ready es rem @ kahn es (filter (\<lambda>v. v \<notin> set (ready es rem)) rem))"
  by pat_completeness auto

termination
proof (relation "measure (\<lambda>(es, rem). length rem)")
  show "wf (measure (\<lambda>(es, rem). length rem))" by simp
next
  fix es :: "(vertex \<times> vertex) list" and rem :: "vertex list"
  assume ne: "ready es rem \<noteq> []"
  then obtain x where x: "x \<in> set (ready es rem)"
    by (cases "ready es rem") auto
  then have "x \<in> set rem" by (simp add: ready_def)
  with x have "length (filter (\<lambda>v. v \<notin> set (ready es rem)) rem) < length rem"
    by (intro length_filter_less[of x]) auto
  then show "((es, filter (\<lambda>v. v \<notin> set (ready es rem)) rem), (es, rem))
      \<in> measure (\<lambda>(es, rem). length rem)"
    by simp
qed

declare kahn.simps [simp del]

definition sort_dag :: "dag \<Rightarrow> vertex list" where
  "sort_dag d = kahn (edges d) (nodes d)"

section \<open>The dependency graph\<close>

text \<open>
  \<^verbatim>\<open>DepGraph\<close> holds the DAG and the dict \<^verbatim>\<open>_state\<close> from vertices to booleans.
  A method either completes or raises; since Python does not undo the mutations made
  before a \<^verbatim>\<open>raise\<close>, every method returns the exception (if any) together with the
  graph as it stands at that point.
\<close>

record depgraph =
  dag :: dag
  state :: "vertex \<rightharpoonup> bool"

definition init :: depgraph where
  "init = \<lparr>dag = empty_dag, state = Map.empty\<rparr>"

type_synonym outcome = "error option \<times> depgraph"

text \<open>Sequencing of statements: an exception ends the method.\<close>

definition andThen :: "outcome \<Rightarrow> (depgraph \<Rightarrow> outcome) \<Rightarrow> outcome" where
  "andThen r f = (case r of (None, g) \<Rightarrow> f g | (Some e, g) \<Rightarrow> (Some e, g))"

text \<open>\<^verbatim>\<open>try: ... except KeyError: pass\<close>\<close>

definition exceptKeyError :: "outcome \<Rightarrow> outcome" where
  "exceptKeyError r =
     (case r of (None, g) \<Rightarrow> (None, g)
      | (Some e, g) \<Rightarrow> if isKeyError e then (None, g) else (Some e, g))"

definition DepGraph_addNode :: "depgraph \<Rightarrow> obj \<Rightarrow> kind \<Rightarrow> outcome" where
  "DepGraph_addNode g x k =
     (case addNode (dag g) x k of
        Inl e \<Rightarrow> (Some e, g)
      | Inr d \<Rightarrow> (None, g\<lparr>dag := d, state := (state g)((x, k) \<mapsto> False)\<rparr>))"

definition DepGraph_removeNode :: "depgraph \<Rightarrow> obj \<Rightarrow> kind \<Rightarrow> outcome" where
  "DepGraph_removeNode g x k =
     (case removeNode (dag g) x k of
        Inl e \<Rightarrow> (Some e, g)
      | Inr d \<Rightarrow> (None, g\<lparr>dag := d\<rparr>))"

definition DepGraph_addEdge :: "depgraph \<Rightarrow> obj \<Rightarrow> obj \<Rightarrow> kind \<Rightarrow> kind \<Rightarrow> outcome" where
  "DepGraph_addEdge g p c pk ck =
     (case addEdge (dag g) p c pk ck of
        Inl e \<Rightarrow> (Some e, g)
      | Inr d \<Rightarrow> (None, g\<lparr>dag := d\<rparr>))"

text \<open>\<^verbatim>\<open>del self._state[key]\<close>: a \<^verbatim>\<open>KeyError\<close> when the key is absent.\<close>

definition delState :: "depgraph \<Rightarrow> vertex \<Rightarrow> outcome" where
  "delState g v =
     (case state g v of
        None \<Rightarrow> (Some MissingState, g)
      | Some b \<Rightarrow> (None, g\<lparr>state := (state g)(v := None)\<rparr>))"

text \<open>
  The loop of \<^verbatim>\<open>addClockMaster\<close> over the \<^verbatim>\<open>COMPONENTSTART\<close> nodes; reading
  \<^verbatim>\<open>start.get('parent')\<close> on a string raises.
\<close>

fun addClockMaster_loop :: "obj list \<Rightarrow> component \<Rightarrow> depgraph \<Rightarrow> outcome" where
  "addClockMaster_loop [] component g = (None, g)"
| "addClockMaster_loop (start # startnodes) component g =
     (case start of
        W s \<Rightarrow> (Some AttributeError, g)
      | C sc \<Rightarrow>
          if parent sc = parent component
          then andThen (DepGraph_addEdge g (C component) start CLOCKMASTER COMPONENTSTART)
                 (addClockMaster_loop startnodes component)
          else addClockMaster_loop startnodes component g)"

definition addClockMaster :: "depgraph \<Rightarrow> component \<Rightarrow> outcome" where
  "addClockMaster g component =
     (if hasNode (dag g) (C component) JOB then
        andThen (DepGraph_addNode g (C component) CLOCKMASTER) (\<lambda>g.
        andThen (DepGraph_addEdge g (C component) (C component) COMPONENTSETUP CLOCKMASTER) (\<lambda>g.
          addClockMaster_loop (getAllNodesByType (dag g) COMPONENTSTART) component g))
      else (Some PreconditionFailed, g))"

definition addWorker :: "depgraph \<Rightarrow> string \<Rightarrow> outcome" where
  "addWorker g worker =
     (if \<not> hasNode (dag g) (W worker) WORKER then DepGraph_addNode g (W worker) WORKER
      else (None, g))"

definition setComponentWorker :: "depgraph \<Rightarrow> component \<Rightarrow> string \<Rightarrow> outcome" where
  "setComponentWorker g component worker =
     (if hasNode (dag g) (W worker) WORKER \<and> hasNode (dag g) (C component) JOB
      then DepGraph_addEdge g (W worker) (C component) WORKER JOB
      else (Some NotFound, g))"

text \<open>\<^verbatim>\<open>if workername:\<close> holds for a non-empty string only.\<close>

definition addComponent :: "depgraph \<Rightarrow> component \<Rightarrow> outcome" where
  "addComponent g component =
     andThen (DepGraph_addNode g (C component) JOB) (\<lambda>g.
     andThen (DepGraph_addNode g (C component) COMPONENTSTART) (\<lambda>g.
     andThen (DepGraph_addNode g (C component) COMPONENTSETUP) (\<lambda>g.
     andThen (DepGraph_addEdge g (C component) (C component) JOB COMPONENTSETUP) (\<lambda>g.
     andThen (case workerRequested component of
                None \<Rightarrow> (None, g)
              | Some workername \<Rightarrow>
                  if workername \<noteq> []
                  then andThen (addWorker g workername) (\<lambda>g.
                         setComponentWorker g component workername)
                  else (None, g)) (\<lambda>g.
       DepGraph_addEdge g (C component) (C component) COMPONENTSETUP COMPONENTSTART)))))"

fun removeComponent_loop :: "kind list \<Rightarrow> component \<Rightarrow> depgraph \<Rightarrow> outcome" where
  "removeComponent_loop [] component g = (None, g)"
| "removeComponent_loop (t # ts) component g =
     (if hasNode (dag g) (C component) t
      then andThen (DepGraph_removeNode g (C component) t) (\<lambda>g.
           andThen (delState g (C component, t)) (removeComponent_loop ts component))
      else removeComponent_loop ts component g)"

definition removeComponent :: "depgraph \<Rightarrow> component \<Rightarrow> outcome" where
  "removeComponent g component = removeComponent_loop types component g"

definition removeWorker :: "depgraph \<Rightarrow> string \<Rightarrow> outcome" where
  "removeWorker g worker =
     (if hasNode (dag g) (W worker) WORKER
      then (case removeNode (dag g) (W worker) WORKER of
              Inl e \<Rightarrow> (Some e, g)
            | Inr d \<Rightarrow> delState (g\<lparr>dag := d\<rparr>) (W worker, WORKER))
      else (None, g))"

subsection \<open>mapEatersToFeeders\<close>

text \<open>\<^verbatim>\<open>string.split(eater, ':')[0]\<close>: the part of the entry before the first colon.\<close>

definition feederName :: "string \<Rightarrow> string" where
  "feederName eater = takeWhile (\<lambda>c. c \<noteq> CHR '':'') eater"

text \<open>
  The innermost loop, \<^verbatim>\<open>for feedercomp in compsetups\<close>, with the flag
  \<^verbatim>\<open>feederfound\<close>. Both \<^verbatim>\<open>_addEdge\<close> calls sit in a
  \<^verbatim>\<open>try ... except KeyError: pass\<close>.
\<close>

fun feedercomp_loop ::
  "obj list \<Rightarrow> obj \<Rightarrow> string \<Rightarrow> bool \<Rightarrow> depgraph \<Rightarrow> error option \<times> bool \<times> depgraph" where
  "feedercomp_loop [] eatercomp nm feederfound g = (None, feederfound, g)"
| "feedercomp_loop (feedercomp # rest) eatercomp nm feederfound g =
     (case feedercomp of
        W s \<Rightarrow> (Some AttributeError, feederfound, g)
      | C fc \<Rightarrow>
          if name fc = nm then
            (case exceptKeyError
                    (DepGraph_addEdge g feedercomp eatercomp COMPONENTSETUP COMPONENTSETUP) of
               (Some e, g1) \<Rightarrow> (Some e, feederfound, g1)
             | (None, g1) \<Rightarrow>
                 (case exceptKeyError
                         (DepGraph_addEdge g1 feedercomp eatercomp COMPONENTSTART COMPONENTSTART) of
                    (Some e, g2) \<Rightarrow> (Some e, True, g2)
                  | (None, g2) \<Rightarrow> feedercomp_loop rest eatercomp nm True g2))
          else feedercomp_loop rest eatercomp nm feederfound g)"

text \<open>The loop \<^verbatim>\<open>for eater in list\<close> over the source entries of one component.\<close>

fun eater_loop :: "string list \<Rightarrow> obj list \<Rightarrow> obj \<Rightarrow> depgraph \<Rightarrow> outcome" where
  "eater_loop [] compsetups eatercomp g = (None, g)"
| "eater_loop (eater # rest) compsetups eatercomp g =
     (case feedercomp_loop compsetups eatercomp (feederName eater) False g of
        (Some e, feederfound, g1) \<Rightarrow> (Some e, g1)
      | (None, feederfound, g1) \<Rightarrow>
          if \<not> feederfound then (Some (Unresolved eater), g1)
          else eater_loop rest compsetups eatercomp g1)"

text \<open>A lone string is treated as a list of one string.\<close>

definition sourceList :: "srcval \<Rightarrow> string list" where
  "sourceList sv = (case sv of Str s \<Rightarrow> [s] | StrList l \<Rightarrow> l)"

text \<open>The outer loop \<^verbatim>\<open>for eatercomp in compsetups\<close>.\<close>

fun eatercomp_loop :: "obj list \<Rightarrow> obj list \<Rightarrow> depgraph \<Rightarrow> outcome" where
  "eatercomp_loop [] compsetups g = (None, g)"
| "eatercomp_loop (eatercomp # rest) compsetups g =
     (case eatercomp of
        W s \<Rightarrow> (Some AttributeError, g)
      | C ec \<Rightarrow>
          (case source ec of
             None \<Rightarrow> eatercomp_loop rest compsetups g
           | Some sv \<Rightarrow>
               andThen (eater_loop (sourceList sv) compsetups eatercomp g)
                 (eatercomp_loop rest compsetups)))"

definition mapEatersToFeeders :: "depgraph \<Rightarrow> outcome" where
  "mapEatersToFeeders g =
     eatercomp_loop (getAllNodesByType (dag g) COMPONENTSETUP)
       (getAllNodesByType (dag g) COMPONENTSETUP) g"

subsection \<open>whatShouldBeStarted\<close>

text \<open>
  \<^verbatim>\<open>for offspring in ...: if offspring in toBeStarted: toBeStarted.remove(offspring)\<close>
\<close>

definition removeOffspring :: "vertex list \<Rightarrow> vertex list \<Rightarrow> vertex list" where
  "removeOffspring offspring toBeStarted = fold remove1 offspring toBeStarted"

text \<open>
  The loop over the copy \<^verbatim>\<open>toBeStarted[:]\<close>; the second list is \<^verbatim>\<open>toBeStarted\<close>
  itself. \<^verbatim>\<open>self._state[obj]\<close> raises on an absent key.
\<close>

fun whatShouldBeStarted_loop ::
  "depgraph \<Rightarrow> vertex list \<Rightarrow> vertex list \<Rightarrow> error + vertex list" where
  "whatShouldBeStarted_loop g [] toBeStarted = Inr toBeStarted"
| "whatShouldBeStarted_loop g (obj # rest) toBeStarted =
     (if obj \<in> set toBeStarted then
        (case state g obj of
           None \<Rightarrow> Inl MissingState
         | Some b \<Rightarrow>
             if b then whatShouldBeStarted_loop g rest (remove1 obj toBeStarted)
             else if snd obj = WORKER then
               whatShouldBeStarted_loop g rest
                 (remove1 obj
                    (removeOffspring (getOffspringTyped (dag g) (fst obj) (snd obj)) toBeStarted))
             else if snd obj = JOB then
               whatShouldBeStarted_loop g rest
                 (remove1 obj
                    (removeOffspring (getOffspringTyped (dag g) (fst obj) (snd obj)) toBeStarted))
             else whatShouldBeStarted_loop g rest toBeStarted)
      else whatShouldBeStarted_loop g rest toBeStarted)"

definition whatShouldBeStarted :: "depgraph \<Rightarrow> error + vertex list" where
  "whatShouldBeStarted g =
     whatShouldBeStarted_loop g (sort_dag (dag g)) (sort_dag (dag g))"

subsection \<open>Liveness setters\<close>

text \<open>\<^verbatim>\<open>for kid in offspring: if kid[0] == object: self._state[kid] = False\<close>\<close>

definition setOffspringFalse :: "obj \<Rightarrow> vertex list \<Rightarrow> depgraph \<Rightarrow> depgraph" where
  "setOffspringFalse x offspring g =
     fold (\<lambda>kid g. if fst kid = x then g\<lparr>state := (state g)(kid \<mapsto> False)\<rparr> else g) offspring g"

definition setState :: "depgraph \<Rightarrow> obj \<Rightarrow> kind \<Rightarrow> bool \<Rightarrow> depgraph" where
  "setState g x k v =
     (if \<not> v
      then setOffspringFalse x (getOffspringTyped (dag g) x k)
             (g\<lparr>state := (state g)((x, k) \<mapsto> v)\<rparr>)
      else g\<lparr>state := (state g)((x, k) \<mapsto> v)\<rparr>)"

definition setComponentStarted :: "depgraph \<Rightarrow> component \<Rightarrow> depgraph" where
  "setComponentStarted g component = setState g (C component) COMPONENTSTART True"

definition setComponentNotStarted :: "depgraph \<Rightarrow> component \<Rightarrow> depgraph" where
  "setComponentNotStarted g component = setState g (C component) COMPONENTSTART False"

definition setComponentSetup :: "depgraph \<Rightarrow> component \<Rightarrow> depgraph" where
  "setComponentSetup g component = setState g (C component) COMPONENTSETUP True"

definition setComponentNotSetup :: "depgraph \<Rightarrow> component \<Rightarrow> depgraph" where
  "setComponentNotSetup g component = setState g (C component) COMPONENTSETUP False"

definition setJobStarted :: "depgraph \<Rightarrow> component \<Rightarrow> depgraph" where
  "setJobStarted g component = setState g (C component) JOB True"

definition setJobStopped :: "depgraph \<Rightarrow> component \<Rightarrow> depgraph" where
  "setJobStopped g component = setState g (C component) JOB False"

definition setWorkerStarted :: "depgraph \<Rightarrow> string \<Rightarrow> depgraph" where
  "setWorkerStarted g worker = setState g (W worker) WORKER True"

definition setWorkerStopped :: "depgraph \<Rightarrow> string \<Rightarrow> depgraph" where
  "setWorkerStopped g worker = setState g (W worker) WORKER False"

definition setClockMasterStarted :: "depgraph \<Rightarrow> component \<Rightarrow> depgraph" where
  "setClockMasterStarted g component = setState g (C component) CLOCKMASTER True"

definition setClockMasterStopped :: "depgraph \<Rightarrow> component \<Rightarrow> depgraph" where
  "setClockMasterStopped g component = setState g (C component) CLOCKMASTER False"

subsection \<open>Sequences of public operations\<close>

text \<open>
  The public mutating methods, with arguments of the types their docstrings give. A
  caller may catch an exception and go on, so a run continues from the graph a failed
  method leaves behind.
\<close>

datatype op =
    AddClockMaster component
  | AddComponent component
  | AddWorker string
  | RemoveComponent component
  | RemoveWorker string
  | SetComponentWorker component string
  | MapEatersToFeeders
  | SetComponentStarted component
  | SetComponentNotStarted component
  | SetComponentSetup component
  | SetComponentNotSetup component
  | SetJobStarted component
  | SetJobStopped component
  | SetWorkerStarted string
  | SetWorkerStopped string
  | SetClockMasterStarted component
  | SetClockMasterStopped component

fun apply_op :: "op \<Rightarrow> depgraph \<Rightarrow> outcome" where
  "apply_op (AddClockMaster c) g = addClockMaster g c"
| "apply_op (AddComponent c) g = addComponent g c"
| "apply_op (AddWorker w) g = addWorker g w"
| "apply_op (RemoveComponent c) g = removeComponent g c"
| "apply_op (RemoveWorker w) g = removeWorker g w"
| "apply_op (SetComponentWorker c w) g = setComponentWorker g c w"
| "apply_op MapEatersToFeeders g = mapEatersToFeeders g"
| "apply_op (SetComponentStarted c) g = (None, setComponentStarted g c)"
| "apply_op (SetComponentNotStarted c) g = (None, setComponentNotStarted g c)"
| "apply_op (SetComponentSetup c) g = (None, setComponentSetup g c)"
| "apply_op (SetComponentNotSetup c) g = (None, setComponentNotSetup g c)"
| "apply_op (SetJobStarted c) g = (None, setJobStarted g c)"
| "apply_op (SetJobStopped c) g = (None, setJobStopped g c)"
| "apply_op (SetWorkerStarted w) g = (None, setWorkerStarted g w)"
| "apply_op (SetWorkerStopped w) g = (None, setWorkerStopped g w)"
| "apply_op (SetClockMasterStarted c) g = (None, setClockMasterStarted g c)"
| "apply_op (SetClockMasterStopped c) g = (None, setClockMasterStopped g c)"

fun run :: "op list \<Rightarrow> depgraph \<Rightarrow> depgraph" where
  "run [] g = g"
| "run (a # as) g = run as (snd (apply_op a g))"

subsection \<open>Example components\<close>

definition comp_a :: component where
  "comp_a = \<lparr>ident = 1, name = ''a'', parent = ''f'', workerRequested = Some ''w'',
             source = None\<rparr>"

definition comp_b :: component where
  "comp_b = \<lparr>ident = 2, name = ''b'', parent = ''f'', workerRequested = None,
             source = Some (StrList [''a'', ''g''])\<rparr>"

definition comp_c :: component where
  "comp_c = \<lparr>ident = 3, name = ''c'', parent = ''h'', workerRequested = None,
             source = Some (Str ''a:default'')\<rparr>"

definition comp_d :: component where
  "comp_d = \<lparr>ident = 4, name = ''a'', parent = ''k'', workerRequested = None,
             source = None\<rparr>"

definition comp_e :: component where
  "comp_e = \<lparr>ident = 5, name = ''a'', parent = ''h'', workerRequested = None,
             source = None\<rparr>"

definition comp_f :: component where
  "comp_f = \<lparr>ident = 6, name = ''f'', parent = ''k'', workerRequested = None,
             source = Some (StrList [''a:x'', ''a:y''])\<rparr>"

definition comp_p :: component where
  "comp_p = \<lparr>ident = 7, name = ''p'', parent = ''k'', workerRequested = None,
             source = Some (Str ''p'')\<rparr>"

subsection \<open>Invariants of the graphs the public operations build\<close>

text \<open>The position of a kind in the lifecycle; every edge the methods add goes upwards.\<close>

fun rank :: "kind \<Rightarrow> nat" where
  "rank WORKER = 0"
| "rank JOB = 1"
| "rank COMPONENTSETUP = 2"
| "rank CLOCKMASTER = 3"
| "rank COMPONENTSTART = 4"

text \<open>Worker names sit under \<open>WORKER\<close>, component handles under the other kinds.\<close>

fun wellTyped :: "vertex \<Rightarrow> bool" where
  "wellTyped (W s, k) = (k = WORKER)"
| "wellTyped (C c, k) = (k \<noteq> WORKER)"

text \<open>
  The structural part: vertices are distinct, edges join vertices of the graph, every
  vertex has a liveness entry, vertices are well typed, edges go upwards in rank and
  the graph is acyclic.
\<close>

definition core :: "depgraph \<Rightarrow> bool" where
  "core g \<longleftrightarrow>
     distinct (nodes (dag g)) \<and>
     (\<forall>e \<in> set (edges (dag g)). fst e \<in> set (nodes (dag g)) \<and> snd e \<in> set (nodes (dag g))) \<and>
     set (nodes (dag g)) \<subseteq> dom (state g) \<and>
     (\<forall>v \<in> set (nodes (dag g)). wellTyped v) \<and>
     (\<forall>e \<in> set (edges (dag g)). rank (snd (fst e)) \<le> rank (snd (snd e))) \<and>
     acyclic (set (edges (dag g)))"

text \<open>The three vertices \<^verbatim>\<open>addComponent\<close> creates come and go together.\<close>

definition triples :: "depgraph \<Rightarrow> bool" where
  "triples g \<longleftrightarrow>
     (\<forall>c. (hasNode (dag g) (C c) JOB \<longleftrightarrow> hasNode (dag g) (C c) COMPONENTSETUP) \<and>
          (hasNode (dag g) (C c) JOB \<longleftrightarrow> hasNode (dag g) (C c) COMPONENTSTART))"

definition inv :: "depgraph \<Rightarrow> bool" where
  "inv g \<longleftrightarrow> core g \<and> triples g"

text \<open>The graph with one more vertex, and with one more edge.\<close>

definition withNode :: "depgraph \<Rightarrow> vertex \<Rightarrow> depgraph" where
  "withNode g v =
     g\<lparr>dag := (dag g)\<lparr>nodes := nodes (dag g) @ [v]\<rparr>, state := (state g)(v \<mapsto> False)\<rparr>"

definition withEdge :: "depgraph \<Rightarrow> vertex \<Rightarrow> vertex \<Rightarrow> depgraph" where
  "withEdge g p c = g\<lparr>dag := (dag g)\<lparr>edges := edges (dag g) @ [(p, c)]\<rparr>\<rparr>"

text \<open>The graph without a vertex, its incident edges and its liveness entry.\<close>

definition without :: "depgraph \<Rightarrow> vertex \<Rightarrow> depgraph" where
  "without g v =
     g\<lparr>dag := (dag g)\<lparr>nodes := removeAll v (nodes (dag g)),
                       edges := filter (\<lambda>e. fst e \<noteq> v \<and> snd e \<noteq> v) (edges (dag g))\<rparr>,
       state := (state g)(v := None)\<rparr>"

text \<open>
  The body of the innermost \<^verbatim>\<open>if\<close> of \<^verbatim>\<open>mapEatersToFeeders\<close>: the two guarded
  \<^verbatim>\<open>_addEdge\<close> calls for one feeder and one eater.
\<close>

definition link :: "depgraph \<Rightarrow> obj \<Rightarrow> obj \<Rightarrow> outcome" where
  "link g f e =
     (case exceptKeyError (DepGraph_addEdge g f e COMPONENTSETUP COMPONENTSETUP) of
        (Some err, g1) \<Rightarrow> (Some err, g1)
      | (None, g1) \<Rightarrow>
          exceptKeyError (DepGraph_addEdge g1 f e COMPONENTSTART COMPONENTSTART))"

text \<open>
  The test that makes \<^verbatim>\<open>addEdge\<close> refuse an edge from \<open>p\<close> to \<open>c\<close>: the edge would
  close a cycle.
\<close>

definition closesCycle :: "depgraph \<Rightarrow> vertex \<Rightarrow> vertex \<Rightarrow> bool" where
  "closesCycle g p c \<longleftrightarrow> p = c \<or> (c, p) \<in> (set (edges (dag g)))\<^sup>+"

text \<open>
  A graph with the same vertices and liveness map and at least the same edges; the
  structural invariant carries over.
\<close>

definition grows :: "depgraph \<Rightarrow> depgraph \<Rightarrow> bool" where
  "grows g g' \<longleftrightarrow>
     nodes (dag g') = nodes (dag g) \<and> state g' = state g \<and>
     set (edges (dag g)) \<subseteq> set (edges (dag g')) \<and> (core g \<longrightarrow> core g')"

text \<open>The vertex a liveness setter writes to.\<close>

fun setterTarget :: "op \<Rightarrow> vertex option" where
  "setterTarget (SetComponentStarted c) = Some (C c, COMPONENTSTART)"
| "setterTarget (SetComponentNotStarted c) = Some (C c, COMPONENTSTART)"
| "setterTarget (SetComponentSetup c) = Some (C c, COMPONENTSETUP)"
| "setterTarget (SetComponentNotSetup c) = Some (C c, COMPONENTSETUP)"
| "setterTarget (SetJobStarted c) = Some (C c, JOB)"
| "setterTarget (SetJobStopped c) = Some (C c, JOB)"
| "setterTarget (SetWorkerStarted w) = Some (W w, WORKER)"
| "setterTarget (SetWorkerStopped w) = Some (W w, WORKER)"
| "setterTarget (SetClockMasterStarted c) = Some (C c, CLOCKMASTER)"
| "setterTarget (SetClockMasterStopped c) = Some (C c, CLOCKMASTER)"
| "setterTarget _ = None"

text \<open>
  A run in which every liveness setter is called for a vertex that is in the graph at
  the time of the call.
\<close>

fun settersOnPresent :: "op list \<Rightarrow> depgraph \<Rightarrow> bool" where
  "settersOnPresent [] g = True"
| "settersOnPresent (a # as) g =
     ((case setterTarget a of None \<Rightarrow> True | Some v \<Rightarrow> hasNode (dag g) (fst v) (snd v)) \<and>
      settersOnPresent as (snd (apply_op a g)))"

text \<open>The structural invariant together with: the liveness keys are the vertices.\<close>

definition exact :: "depgraph \<Rightarrow> bool" where
  "exact g \<longleftrightarrow> core g \<and> dom (state g) = set (nodes (dag g))"

text \<open>
  Both feeder-to-eater edges are in the graph, each as far as its two endpoints are.
\<close>

definition linked :: "depgraph \<Rightarrow> obj \<Rightarrow> obj \<Rightarrow> bool" where
  "linked g f e \<longleftrightarrow>
     (hasNode (dag g) f COMPONENTSETUP \<and> hasNode (dag g) e COMPONENTSETUP \<longrightarrow>
        ((f, COMPONENTSETUP), (e, COMPONENTSETUP)) \<in> set (edges (dag g))) \<and>
     (hasNode (dag g) f COMPONENTSTART \<and> hasNode (dag g) e COMPONENTSTART \<longrightarrow>
        ((f, COMPONENTSTART), (e, COMPONENTSTART)) \<in> set (edges (dag g)))"

text \<open>
  What the loop of \<^verbatim>\<open>whatShouldBeStarted\<close> does to the list for a worker or job
  that is not live: its offspring and the vertex itself are removed.
\<close>

definition prune :: "depgraph \<Rightarrow> vertex \<Rightarrow> vertex list \<Rightarrow> vertex list" where
  "prune g obj tbs =
     remove1 obj (removeOffspring (getOffspringTyped (dag g) (fst obj) (snd obj)) tbs)"

section \<open>Liveness setters: frame and cascade\<close>

lemma dag_setOffspringFalse: "dag (setOffspringFalse x os g) = dag g"
  unfolding setOffspringFalse_def by (induction os arbitrary: g) auto

lemma state_setOffspringFalse:
  "state (setOffspringFalse x os g) v =
     (if v \<in> set os \<and> fst v = x then Some False else state g v)"
  unfolding setOffspringFalse_def by (induction os arbitrary: g) auto

lemma set_getOffspringTyped:
  "set (getOffspringTyped d x k) =
     {v \<in> set (nodes d). v \<noteq> (x, k) \<and> ((x, k), v) \<in> (set (edges d))\<^sup>+}"
  by (auto simp: getOffspringTyped_def)

lemma dag_setState: "dag (setState g x k v) = dag g"
  by (simp add: setState_def dag_setOffspringFalse)

lemma state_setState_True: "state (setState g x k True) = (state g)((x, k) \<mapsto> True)"
  by (simp add: setState_def)

lemma state_setState_False:
  "state (setState g x k False) =
     (\<lambda>v. if v = (x, k) \<or>
              (v \<in> set (nodes (dag g)) \<and> ((x, k), v) \<in> (set (edges (dag g)))\<^sup>+ \<and> fst v = x)
           then Some False else state g v)"
  by (auto simp: setState_def state_setOffspringFalse set_getOffspringTyped fun_eq_iff)

text \<open>
  C9. Setting a vertex to true writes that one liveness entry and nothing else: the DAG
  (vertices and edges) is the same and the liveness map is the old one updated at the
  vertex. This holds for \<^verbatim>\<open>_setState\<close> with value true and so for each of the five
  setters that call it with true.
\<close>

theorem setState_True_frame:
  "(dag (setState g x k True) = dag g \<and>
    state (setState g x k True) = (state g)((x, k) \<mapsto> True)) \<and>
   (dag (setComponentStarted g c) = dag g \<and>
    state (setComponentStarted g c) = (state g)((C c, COMPONENTSTART) \<mapsto> True)) \<and>
   (dag (setComponentSetup g c) = dag g \<and>
    state (setComponentSetup g c) = (state g)((C c, COMPONENTSETUP) \<mapsto> True)) \<and>
   (dag (setJobStarted g c) = dag g \<and>
    state (setJobStarted g c) = (state g)((C c, JOB) \<mapsto> True)) \<and>
   (dag (setWorkerStarted g w) = dag g \<and>
    state (setWorkerStarted g w) = (state g)((W w, WORKER) \<mapsto> True)) \<and>
   (dag (setClockMasterStarted g c) = dag g \<and>
    state (setClockMasterStarted g c) = (state g)((C c, CLOCKMASTER) \<mapsto> True))"
  by (simp add: dag_setState state_setState_True setComponentStarted_def
      setComponentSetup_def setJobStarted_def setWorkerStarted_def setClockMasterStarted_def)

theorem setState_True_frame_witness:
  "state (setJobStarted (run [AddComponent comp_a] init) comp_a) (C comp_a, COMPONENTSETUP)
     = Some False \<and>
   dag (setJobStarted (run [AddComponent comp_a] init) comp_a)
     = dag (run [AddComponent comp_a] init)"
proof -
  have "state (run [AddComponent comp_a] init) (C comp_a, COMPONENTSETUP) = Some False"
    by code_simp
  then show ?thesis
    using setState_True_frame [of "run [AddComponent comp_a] init" _ _ comp_a]
    by simp
qed

lemma stoppers_are_setState:
  "setComponentNotStarted g c = setState g (C c) COMPONENTSTART False"
  "setComponentNotSetup g c = setState g (C c) COMPONENTSETUP False"
  "setJobStopped g c = setState g (C c) JOB False"
  "setWorkerStopped g w = setState g (W w) WORKER False"
  "setClockMasterStopped g c = setState g (C c) CLOCKMASTER False"
  by (simp_all add: setComponentNotStarted_def setComponentNotSetup_def setJobStopped_def
      setWorkerStopped_def setClockMasterStopped_def)

text \<open>
  C2. Setting a vertex \<open>(x, k)\<close> to false leaves the DAG alone and yields the liveness
  map that is false at \<open>(x, k)\<close> and at exactly the descendants of \<open>(x, k)\<close> (the
  vertices reached from it over one or more edges) whose object is \<open>x\<close>; every other
  entry, in particular every descendant with another object and every vertex that is
  not a descendant, keeps its value. This holds for \<^verbatim>\<open>_setState\<close> with value false
  and for each of the five public setters that stop a vertex:
  \<^verbatim>\<open>setComponentNotStarted\<close>, \<^verbatim>\<open>setComponentNotSetup\<close>, \<^verbatim>\<open>setJobStopped\<close>,
  \<^verbatim>\<open>setWorkerStopped\<close> and \<^verbatim>\<open>setClockMasterStopped\<close>.
\<close>

theorem setState_False_cascade:
  "(dag (setState g x k False) = dag g \<and>
    state (setState g x k False) =
      (\<lambda>v. if v = (x, k) \<or>
               (v \<in> set (nodes (dag g)) \<and> ((x, k), v) \<in> (set (edges (dag g)))\<^sup>+ \<and> fst v = x)
            then Some False else state g v)) \<and>
   (dag (setComponentNotStarted g c) = dag g \<and>
    state (setComponentNotStarted g c) =
      (\<lambda>v. if v = (C c, COMPONENTSTART) \<or>
               (v \<in> set (nodes (dag g)) \<and>
                ((C c, COMPONENTSTART), v) \<in> (set (edges (dag g)))\<^sup>+ \<and> fst v = C c)
            then Some False else state g v)) \<and>
   (dag (setComponentNotSetup g c) = dag g \<and>
    state (setComponentNotSetup g c) =
      (\<lambda>v. if v = (C c, COMPONENTSETUP) \<or>
               (v \<in> set (nodes (dag g)) \<and>
                ((C c, COMPONENTSETUP), v) \<in> (set (edges (dag g)))\<^sup>+ \<and> fst v = C c)
            then Some False else state g v)) \<and>
   (dag (setJobStopped g c) = dag g \<and>
    state (setJobStopped g c) =
      (\<lambda>v. if v = (C c, JOB) \<or>
               (v \<in> set (nodes (dag g)) \<and>
                ((C c, JOB), v) \<in> (set (edges (dag g)))\<^sup>+ \<and> fst v = C c)
            then Some False else state g v)) \<and>
   (dag (setWorkerStopped g w) = dag g \<and>
    state (setWorkerStopped g w) =
      (\<lambda>v. if v = (W w, WORKER) \<or>
               (v \<in> set (nodes (dag g)) \<and>
                ((W w, WORKER), v) \<in> (set (edges (dag g)))\<^sup>+ \<and> fst v = W w)
            then Some False else state g v)) \<and>
   (dag (setClockMasterStopped g c) = dag g \<and>
    state (setClockMasterStopped g c) =
      (\<lambda>v. if v = (C c, CLOCKMASTER) \<or>
               (v \<in> set (nodes (dag g)) \<and>
                ((C c, CLOCKMASTER), v) \<in> (set (edges (dag g)))\<^sup>+ \<and> fst v = C c)
            then Some False else state g v))"
  unfolding stoppers_are_setState
  using dag_setState state_setState_False by blast

theorem setState_False_cascade_witness:
  "state (setWorkerStopped (run [AddComponent comp_a, AddClockMaster comp_a,
            SetWorkerStarted ''w'', SetJobStarted comp_a, SetComponentSetup comp_a,
            SetClockMasterStarted comp_a, SetComponentStarted comp_a] init) ''w'')
     (W ''w'', WORKER) = Some False \<and>
   state (setWorkerStopped (run [AddComponent comp_a, AddClockMaster comp_a,
            SetWorkerStarted ''w'', SetJobStarted comp_a, SetComponentSetup comp_a,
            SetClockMasterStarted comp_a, SetComponentStarted comp_a] init) ''w'')
     (C comp_a, JOB) = Some True \<and>
   state (setJobStopped (run [AddComponent comp_a, AddClockMaster comp_a,
            SetWorkerStarted ''w'', SetJobStarted comp_a, SetComponentSetup comp_a,
            SetClockMasterStarted comp_a, SetComponentStarted comp_a] init) comp_a)
     (C comp_a, JOB) = Some False \<and>
   state (setJobStopped (run [AddComponent comp_a, AddClockMaster comp_a,
            SetWorkerStarted ''w'', SetJobStarted comp_a, SetComponentSetup comp_a,
            SetClockMasterStarted comp_a, SetComponentStarted comp_a] init) comp_a)
     (C comp_a, COMPONENTSTART) = Some False \<and>
   state (setJobStopped (run [AddComponent comp_a, AddClockMaster comp_a,
            SetWorkerStarted ''w'', SetJobStarted comp_a, SetComponentSetup comp_a,
            SetClockMasterStarted comp_a, SetComponentStarted comp_a] init) comp_a)
     (W ''w'', WORKER) = Some True \<and>
   state (setComponentNotSetup (run [AddComponent comp_a, AddClockMaster comp_a,
            SetWorkerStarted ''w'', SetJobStarted comp_a, SetComponentSetup comp_a,
            SetClockMasterStarted comp_a, SetComponentStarted comp_a] init) comp_a)
     (C comp_a, COMPONENTSETUP) = Some False \<and>
   state (setComponentNotSetup (run [AddComponent comp_a, AddClockMaster comp_a,
            SetWorkerStarted ''w'', SetJobStarted comp_a, SetComponentSetup comp_a,
            SetClockMasterStarted comp_a, SetComponentStarted comp_a] init) comp_a)
     (C comp_a, JOB) = Some True \<and>
   state (setClockMasterStopped (run [AddComponent comp_a, AddClockMaster comp_a,
            SetWorkerStarted ''w'', SetJobStarted comp_a, SetComponentSetup comp_a,
            SetClockMasterStarted comp_a, SetComponentStarted comp_a] init) comp_a)
     (C comp_a, CLOCKMASTER) = Some False \<and>
   state (setClockMasterStopped (run [AddComponent comp_a, AddClockMaster comp_a,
            SetWorkerStarted ''w'', SetJobStarted comp_a, SetComponentSetup comp_a,
            SetClockMasterStarted comp_a, SetComponentStarted comp_a] init) comp_a)
     (C comp_a, COMPONENTSTART) = Some False \<and>
   state (setComponentNotStarted (run [AddComponent comp_a, AddClockMaster comp_a,
            SetWorkerStarted ''w'', SetJobStarted comp_a, SetComponentSetup comp_a,
            SetClockMasterStarted comp_a, SetComponentStarted comp_a] init) comp_a)
     (C comp_a, COMPONENTSTART) = Some False \<and>
   state (setComponentNotStarted (run [AddComponent comp_a, AddClockMaster comp_a,
            SetWorkerStarted ''w'', SetJobStarted comp_a, SetComponentSetup comp_a,
            SetClockMasterStarted comp_a, SetComponentStarted comp_a] init) comp_a)
     (C comp_a, COMPONENTSETUP) = Some True"
proof -
  let ?g = "run [AddComponent comp_a, AddClockMaster comp_a,
            SetWorkerStarted ''w'', SetJobStarted comp_a, SetComponentSetup comp_a,
            SetClockMasterStarted comp_a, SetComponentStarted comp_a] init"
  let ?Wk = "(W ''w'', WORKER)" and ?J = "(C comp_a, JOB)"
    and ?S = "(C comp_a, COMPONENTSETUP)" and ?M = "(C comp_a, CLOCKMASTER)"
    and ?T = "(C comp_a, COMPONENTSTART)"
  note t = setState_False_cascade [of ?g _ _ comp_a "''w''"]
  have live: "state ?g ?Wk = Some True" "state ?g ?J = Some True" "state ?g ?S = Some True"
    by code_simp+
  have tn: "?T \<in> set (nodes (dag ?g))" by code_simp
  have jt: "(?J, ?T) \<in> (set (edges (dag ?g)))\<^sup>+" by code_simp
  have mt: "(?M, ?T) \<in> (set (edges (dag ?g)))\<^sup>+" by code_simp
  have sj: "(?S, ?J) \<notin> (set (edges (dag ?g)))\<^sup>+" by code_simp
  have ts: "(?T, ?S) \<notin> (set (edges (dag ?g)))\<^sup>+" by code_simp
  have ws: "state (setWorkerStopped ?g ''w'') =
      (\<lambda>v. if v = ?Wk \<or> (v \<in> set (nodes (dag ?g)) \<and>
                (?Wk, v) \<in> (set (edges (dag ?g)))\<^sup>+ \<and> fst v = W ''w'')
            then Some False else state ?g v)"
    using t by blast
  have js: "state (setJobStopped ?g comp_a) =
      (\<lambda>v. if v = ?J \<or> (v \<in> set (nodes (dag ?g)) \<and>
                (?J, v) \<in> (set (edges (dag ?g)))\<^sup>+ \<and> fst v = C comp_a)
            then Some False else state ?g v)"
    using t by blast
  have ns: "state (setComponentNotSetup ?g comp_a) =
      (\<lambda>v. if v = ?S \<or> (v \<in> set (nodes (dag ?g)) \<and>
                (?S, v) \<in> (set (edges (dag ?g)))\<^sup>+ \<and> fst v = C comp_a)
            then Some False else state ?g v)"
    using t by blast
  have ms: "state (setClockMasterStopped ?g comp_a) =
      (\<lambda>v. if v = ?M \<or> (v \<in> set (nodes (dag ?g)) \<and>
                (?M, v) \<in> (set (edges (dag ?g)))\<^sup>+ \<and> fst v = C comp_a)
            then Some False else state ?g v)"
    using t by blast
  have nt: "state (setComponentNotStarted ?g comp_a) =
      (\<lambda>v. if v = ?T \<or> (v \<in> set (nodes (dag ?g)) \<and>
                (?T, v) \<in> (set (edges (dag ?g)))\<^sup>+ \<and> fst v = C comp_a)
            then Some False else state ?g v)"
    using t by blast
  have 1: "state (setWorkerStopped ?g ''w'') ?Wk = Some False" unfolding ws by simp
  have 2: "state (setWorkerStopped ?g ''w'') ?J = Some True"
    unfolding ws using live by (simp del: run.simps)
  have 3: "state (setJobStopped ?g comp_a) ?J = Some False" unfolding js by simp
  have 4: "state (setJobStopped ?g comp_a) ?T = Some False"
    unfolding js using tn jt by (simp del: run.simps)
  have 5: "state (setJobStopped ?g comp_a) ?Wk = Some True"
    unfolding js using live by (simp del: run.simps)
  have 6: "state (setComponentNotSetup ?g comp_a) ?S = Some False" unfolding ns by simp
  have 7: "state (setComponentNotSetup ?g comp_a) ?J = Some True"
    unfolding ns using live sj by (simp del: run.simps)
  have 8: "state (setClockMasterStopped ?g comp_a) ?M = Some False" unfolding ms by simp
  have 9: "state (setClockMasterStopped ?g comp_a) ?T = Some False"
    unfolding ms using tn mt by (simp del: run.simps)
  have 10: "state (setComponentNotStarted ?g comp_a) ?T = Some False" unfolding nt by simp
  have 11: "state (setComponentNotStarted ?g comp_a) ?S = Some True"
    unfolding nt using live ts by (simp del: run.simps)
  show ?thesis using 1 2 3 4 5 6 7 8 9 10 11 by blast
qed

section \<open>The invariant holds in every graph the operations build\<close>

lemma withNode_simps [simp]:
  "nodes (dag (withNode g v)) = nodes (dag g) @ [v]"
  "edges (dag (withNode g v)) = edges (dag g)"
  "state (withNode g v) = (state g)(v \<mapsto> False)"
  by (simp_all add: withNode_def)

lemma withEdge_simps [simp]:
  "nodes (dag (withEdge g p c)) = nodes (dag g)"
  "edges (dag (withEdge g p c)) = edges (dag g) @ [(p, c)]"
  "state (withEdge g p c) = state g"
  by (simp_all add: withEdge_def)

lemma hasNode_withNode [simp]: "hasNode (dag (withNode g v)) x k \<longleftrightarrow> hasNode (dag g) x k \<or> v = (x, k)"
  by (auto simp: hasNode_def)

lemma hasNode_withEdge [simp]: "hasNode (dag (withEdge g p c)) x k \<longleftrightarrow> hasNode (dag g) x k"
  by (simp add: hasNode_def)

lemma DepGraph_addNode_cases:
  "DepGraph_addNode g x k =
     (if hasNode (dag g) x k then (Some AlreadyExists, g) else (None, withNode g (x, k)))"
  by (simp add: DepGraph_addNode_def addNode_def withNode_def)

lemma DepGraph_addEdge_cases:
  "DepGraph_addEdge g p c pk ck =
     (if \<not> hasNode (dag g) p pk \<or> \<not> hasNode (dag g) c ck then (Some NotFound, g)
      else if ((p, pk), (c, ck)) \<in> set (edges (dag g)) then (Some AlreadyExists, g)
      else if (p, pk) = (c, ck) \<or> ((c, ck), (p, pk)) \<in> (set (edges (dag g)))\<^sup>+
        then (Some WouldCycle, g)
      else (None, withEdge g (p, pk) (c, ck)))"
  by (simp add: DepGraph_addEdge_def addEdge_def withEdge_def)

lemma rank_trancl:
  assumes "\<forall>e \<in> r. rank (snd (fst e)) \<le> rank (snd (snd e))" and "(a, b) \<in> r\<^sup>+"
  shows "rank (snd a) \<le> rank (snd b)"
  using assms(2)
proof (induction rule: trancl.induct)
  case (r_into_trancl a b)
  then show ?case using assms(1) by force
next
  case (trancl_into_trancl a b c)
  then show ?case using assms(1) by force
qed

lemma core_withNode:
  assumes "core g" "v \<notin> set (nodes (dag g))" "wellTyped v"
  shows "core (withNode g v)"
  using assms unfolding core_def by (auto simp: subset_iff)

lemma core_withEdge:
  assumes "core g" "p \<in> set (nodes (dag g))" "c \<in> set (nodes (dag g))"
    "rank (snd p) \<le> rank (snd c)" "p \<noteq> c" "(c, p) \<notin> (set (edges (dag g)))\<^sup>+"
  shows "core (withEdge g p c)"
proof -
  have "(c, p) \<notin> (set (edges (dag g)))\<^sup>*"
    using assms(5,6) by (auto simp: rtrancl_eq_or_trancl)
  then have "acyclic (insert (p, c) (set (edges (dag g))))"
    using assms(1) by (simp add: core_def)
  then show ?thesis
    using assms unfolding core_def by auto
qed

lemma core_DepGraph_addNode:
  "core g \<Longrightarrow> wellTyped (x, k) \<Longrightarrow> core (snd (DepGraph_addNode g x k))"
  by (simp add: DepGraph_addNode_cases core_withNode hasNode_def)

lemma core_DepGraph_addEdge:
  "core g \<Longrightarrow> rank pk \<le> rank ck \<Longrightarrow> core (snd (DepGraph_addEdge g p c pk ck))"
  by (auto simp: DepGraph_addEdge_cases hasNode_def intro!: core_withEdge)

lemma no_cycle_by_rank:
  assumes "core g" "rank (snd p) < rank (snd c)"
  shows "p \<noteq> c \<and> (c, p) \<notin> (set (edges (dag g)))\<^sup>+"
proof -
  have "\<forall>e \<in> set (edges (dag g)). rank (snd (fst e)) \<le> rank (snd (snd e))"
    using assms(1) by (simp add: core_def)
  from rank_trancl[OF this, of c p] assms(2) show ?thesis by auto
qed

lemma andThen_simps [simp]:
  "andThen (None, g) f = f g"
  "andThen (Some e, g) f = (Some e, g)"
  by (simp_all add: andThen_def)

lemma andThen_fst:
  "fst r = None \<Longrightarrow> andThen r f = f (snd r)"
  "fst r = Some e \<Longrightarrow> andThen r f = (Some e, snd r)"
  by (cases r; simp)+

lemma snd_andThen_pres:
  assumes "P (snd r)" "\<And>g. P g \<Longrightarrow> P (snd (f g))"
  shows "P (snd (andThen r f))"
  using assms by (cases r; cases "fst r") (auto simp: andThen_def)

lemma snd_exceptKeyError [simp]: "snd (exceptKeyError r) = snd r"
  by (cases r; cases "fst r") (auto simp: exceptKeyError_def)

lemma nodes_DepGraph_addEdge [simp]:
  "nodes (dag (snd (DepGraph_addEdge g p c pk ck))) = nodes (dag g)"
  by (simp add: DepGraph_addEdge_cases)

lemma state_DepGraph_addEdge [simp]:
  "state (snd (DepGraph_addEdge g p c pk ck)) = state g"
  by (simp add: DepGraph_addEdge_cases)

lemma edges_DepGraph_addEdge_mono:
  "set (edges (dag g)) \<subseteq> set (edges (dag (snd (DepGraph_addEdge g p c pk ck))))"
  by (auto simp: DepGraph_addEdge_cases)

lemma triples_cong:
  assumes "triples g"
    "\<And>c k. k \<in> {JOB, COMPONENTSETUP, COMPONENTSTART} \<Longrightarrow>
        hasNode (dag g') (C c) k = hasNode (dag g) (C c) k"
  shows "triples g'"
  using assms unfolding triples_def by auto

lemma triples_same_nodes: "triples g \<Longrightarrow> nodes (dag g') = nodes (dag g) \<Longrightarrow> triples g'"
  by (auto simp: triples_def hasNode_def)

text \<open>addWorker\<close>

lemma inv_addWorker: "inv g \<Longrightarrow> inv (snd (addWorker g w))"
  unfolding inv_def addWorker_def
  by (auto simp: DepGraph_addNode_cases hasNode_def intro!: core_withNode elim!: triples_cong)

text \<open>setComponentWorker\<close>

lemma inv_setComponentWorker: "inv g \<Longrightarrow> inv (snd (setComponentWorker g c w))"
  unfolding inv_def setComponentWorker_def
  by (auto intro!: core_DepGraph_addEdge elim!: triples_same_nodes)

text \<open>setters\<close>

lemma core_setState: "core g \<Longrightarrow> core (setState g x k v)"
  unfolding core_def
  by (cases v) (auto simp: dag_setState state_setState_True state_setState_False dom_def)

lemma inv_setState: "inv g \<Longrightarrow> inv (setState g x k v)"
  unfolding inv_def by (auto simp: core_setState dag_setState elim!: triples_same_nodes)

text \<open>addClockMaster\<close>

lemma addClockMaster_loop_pres:
  "core g \<Longrightarrow>
   core (snd (addClockMaster_loop ss c g)) \<and>
   nodes (dag (snd (addClockMaster_loop ss c g))) = nodes (dag g) \<and>
   state (snd (addClockMaster_loop ss c g)) = state g"
proof (induction ss arbitrary: g)
  case Nil
  then show ?case by simp
next
  case (Cons s ss)
  show ?case
  proof (cases s)
    case (W x)
    then show ?thesis using Cons.prems by simp
  next
    case (C sc)
    let ?r = "DepGraph_addEdge g (C c) s CLOCKMASTER COMPONENTSTART"
    have c1: "core (snd ?r)" using Cons.prems by (simp add: core_DepGraph_addEdge)
    show ?thesis
    proof (cases "parent sc = parent c")
      case False
      then show ?thesis using C Cons by simp
    next
      case True
      show ?thesis
      proof (cases "fst ?r")
        case None
        then have "addClockMaster_loop (s # ss) c g = addClockMaster_loop ss c (snd ?r)"
          using C True by (simp add: andThen_fst)
        then show ?thesis using Cons.IH[OF c1] by simp
      next
        case (Some e)
        then have "addClockMaster_loop (s # ss) c g = (Some e, snd ?r)"
          using C True by (simp add: andThen_fst)
        then show ?thesis using c1 by simp
      qed
    qed
  qed
qed

lemma inv_addClockMaster: "inv g \<Longrightarrow> inv (snd (addClockMaster g c))"
proof -
  assume i: "inv g"
  show ?thesis
  proof (cases "hasNode (dag g) (C c) JOB \<and> \<not> hasNode (dag g) (C c) CLOCKMASTER")
    case False
    then show ?thesis using i by (auto simp: addClockMaster_def DepGraph_addNode_cases)
  next
    case True
    let ?g1 = "withNode g (C c, CLOCKMASTER)"
    let ?r2 = "DepGraph_addEdge ?g1 (C c) (C c) COMPONENTSETUP CLOCKMASTER"
    have c1: "core ?g1" using i True by (auto simp: inv_def hasNode_def intro!: core_withNode)
    have t1: "triples ?g1" using i by (auto simp: inv_def elim!: triples_cong)
    have c2: "core (snd ?r2)" using c1 by (simp add: core_DepGraph_addEdge)
    have n2: "nodes (dag (snd ?r2)) = nodes (dag ?g1)" by simp
    show ?thesis
    proof (cases "fst ?r2")
      case (Some e)
      then have "addClockMaster g c = (Some e, snd ?r2)"
        using True by (simp add: addClockMaster_def DepGraph_addNode_cases andThen_fst)
      then show ?thesis using c2 t1 n2 by (auto simp: inv_def elim!: triples_same_nodes)
    next
      case None
      then have "addClockMaster g c =
          addClockMaster_loop (getAllNodesByType (dag (snd ?r2)) COMPONENTSTART) c (snd ?r2)"
        using True by (simp add: addClockMaster_def DepGraph_addNode_cases andThen_fst)
      then show ?thesis
        using addClockMaster_loop_pres[OF c2] t1 n2
        by (auto simp: inv_def elim!: triples_same_nodes)
    qed
  qed
qed

lemma edge_endpoints:
  "core g \<Longrightarrow> (p, c) \<in> set (edges (dag g)) \<Longrightarrow>
     p \<in> set (nodes (dag g)) \<and> c \<in> set (nodes (dag g))"
  unfolding core_def by force

lemma addEdge_up_ok:
  assumes "core g" "(p, pk) \<in> set (nodes (dag g))" "(c, ck) \<in> set (nodes (dag g))"
    "rank pk < rank ck" "((p, pk), (c, ck)) \<notin> set (edges (dag g))"
  shows "DepGraph_addEdge g p c pk ck = (None, withEdge g (p, pk) (c, ck))"
    and "core (withEdge g (p, pk) (c, ck))"
proof -
  have nc: "(p, pk) \<noteq> (c, ck) \<and> ((c, ck), (p, pk)) \<notin> (set (edges (dag g)))\<^sup>+"
    using no_cycle_by_rank[OF assms(1), of "(p, pk)" "(c, ck)"] assms(4) by simp
  show "DepGraph_addEdge g p c pk ck = (None, withEdge g (p, pk) (c, ck))"
    using assms nc by (simp add: DepGraph_addEdge_cases hasNode_def)
  show "core (withEdge g (p, pk) (c, ck))"
    using assms nc by (intro core_withEdge) auto
qed

lemma addWorker_ok:
  assumes "core g"
  shows "fst (addWorker g w) = None" and "core (snd (addWorker g w))"
    and "hasNode (dag (snd (addWorker g w))) (W w) WORKER"
    and "edges (dag (snd (addWorker g w))) = edges (dag g)"
    and "set (nodes (dag (snd (addWorker g w)))) = insert (W w, WORKER) (set (nodes (dag g)))"
  using assms
  by (auto simp: addWorker_def DepGraph_addNode_cases hasNode_def intro!: core_withNode)

lemma worker_part:
  assumes c: "core g" and j: "(C x, JOB) \<in> set (nodes (dag g))"
    and noin: "\<forall>p. (p, (C x, JOB)) \<notin> set (edges (dag g))"
  defines "r \<equiv> (case workerRequested x of
                None \<Rightarrow> (None, g)
              | Some workername \<Rightarrow>
                  if workername \<noteq> []
                  then andThen (addWorker g workername) (\<lambda>g.
                         setComponentWorker g x workername)
                  else (None, g))"
  shows "fst r = None \<and> core (snd r) \<and>
         set (nodes (dag g)) \<subseteq> set (nodes (dag (snd r))) \<and>
         (\<forall>v \<in> set (nodes (dag (snd r))). v \<in> set (nodes (dag g)) \<or> snd v = WORKER) \<and>
         (\<forall>e \<in> set (edges (dag (snd r))). e \<in> set (edges (dag g)) \<or> snd (fst e) = WORKER)"
proof (cases "\<exists>w. workerRequested x = Some w \<and> w \<noteq> []")
  case False
  then have "r = (None, g)" by (auto simp: r_def split: option.splits)
  then show ?thesis using c by simp
next
  case True
  then obtain w where w: "workerRequested x = Some w" "w \<noteq> []" by blast
  let ?g1 = "snd (addWorker g w)"
  note aw = addWorker_ok[OF c, of w]
  have j1: "(C x, JOB) \<in> set (nodes (dag ?g1))" using aw(5) j by simp
  have w1: "(W w, WORKER) \<in> set (nodes (dag ?g1))" using aw(3) by (simp add: hasNode_def)
  have ne: "((W w, WORKER), (C x, JOB)) \<notin> set (edges (dag ?g1))" using aw(4) noin by simp
  note ae = addEdge_up_ok[OF aw(2) w1 j1 _ ne]
  have "r = setComponentWorker ?g1 x w"
    using w aw(1) by (simp add: r_def andThen_fst)
  also have "\<dots> = (None, withEdge ?g1 (W w, WORKER) (C x, JOB))"
    using ae(1) j1 w1 by (simp add: setComponentWorker_def hasNode_def)
  finally have r: "r = (None, withEdge ?g1 (W w, WORKER) (C x, JOB))" .
  show ?thesis using ae(2) aw(4,5) by (auto simp: r)
qed

lemma addComponent_present:
  "hasNode (dag g) (C c) JOB \<Longrightarrow> addComponent g c = (Some AlreadyExists, g)"
  by (simp add: addComponent_def DepGraph_addNode_cases)

lemma addComponent_absent:
  assumes i: "inv g" and a: "\<not> hasNode (dag g) (C c) JOB"
  shows "fst (addComponent g c) = None \<and> inv (snd (addComponent g c))"
proof -
  let ?J = "(C c, JOB)" and ?S = "(C c, COMPONENTSETUP)" and ?T = "(C c, COMPONENTSTART)"
  have c0: "core g" and t0: "triples g" using i by (simp_all add: inv_def)
  have abs: "?J \<notin> set (nodes (dag g))" "?S \<notin> set (nodes (dag g))" "?T \<notin> set (nodes (dag g))"
    using a t0 by (auto simp: triples_def hasNode_def)
  define g3 where "g3 = withNode (withNode (withNode g ?J) ?T) ?S"
  have c3: "core g3"
    unfolding g3_def using c0 abs by (intro core_withNode) auto
  have n3: "nodes (dag g3) = nodes (dag g) @ [?J, ?T, ?S]" and e3: "edges (dag g3) = edges (dag g)"
    by (simp_all add: g3_def)
  have fresh: "\<And>p q. (p, q) \<in> set (edges (dag g)) \<Longrightarrow> p \<notin> {?J, ?S, ?T} \<and> q \<notin> {?J, ?S, ?T}"
    using edge_endpoints[OF c0] abs by blast
  have ne4: "(?J, ?S) \<notin> set (edges (dag g3))" using fresh e3 by auto
  define g4 where "g4 = withEdge g3 ?J ?S"
  have s4: "DepGraph_addEdge g3 (C c) (C c) JOB COMPONENTSETUP = (None, g4)"
    and c4: "core g4"
    unfolding g4_def using addEdge_up_ok[OF c3 _ _ _ ne4] by (simp_all add: n3)
  have n4: "nodes (dag g4) = nodes (dag g) @ [?J, ?T, ?S]"
    and e4: "edges (dag g4) = edges (dag g) @ [(?J, ?S)]"
    by (simp_all add: g4_def n3 e3)
  define r5 where "r5 = (case workerRequested c of
                None \<Rightarrow> (None, g4)
              | Some workername \<Rightarrow>
                  if workername \<noteq> []
                  then andThen (addWorker g4 workername) (\<lambda>g.
                         setComponentWorker g c workername)
                  else (None, g4))"
  have noin: "\<forall>p. (p, ?J) \<notin> set (edges (dag g4))" using fresh by (auto simp: e4)
  have wp: "fst r5 = None \<and> core (snd r5) \<and>
         set (nodes (dag g4)) \<subseteq> set (nodes (dag (snd r5))) \<and>
         (\<forall>v \<in> set (nodes (dag (snd r5))). v \<in> set (nodes (dag g4)) \<or> snd v = WORKER) \<and>
         (\<forall>e \<in> set (edges (dag (snd r5))). e \<in> set (edges (dag g4)) \<or> snd (fst e) = WORKER)"
    unfolding r5_def by (rule worker_part[OF c4 _ noin]) (simp add: n4)
  define g5 where "g5 = snd r5"
  have c5: "core g5" using wp by (simp add: g5_def)
  have in5: "?S \<in> set (nodes (dag g5))" "?T \<in> set (nodes (dag g5))"
    using wp by (auto simp: g5_def n4)
  have ne6: "(?S, ?T) \<notin> set (edges (dag g5))"
  proof
    assume "(?S, ?T) \<in> set (edges (dag g5))"
    then have "(?S, ?T) \<in> set (edges (dag g4))" using wp by (auto simp: g5_def)
    then show False using fresh by (auto simp: e4)
  qed
  define g6 where "g6 = withEdge g5 ?S ?T"
  have s6: "DepGraph_addEdge g5 (C c) (C c) COMPONENTSETUP COMPONENTSTART = (None, g6)"
    and c6: "core g6"
    unfolding g6_def using addEdge_up_ok[OF c5 in5 _ ne6] by simp_all
  have res: "addComponent g c = (None, g6)"
    unfolding addComponent_def using a abs s4 s6 wp
    by (simp add: DepGraph_addNode_cases hasNode_def g3_def[symmetric] r5_def[symmetric]
        andThen_fst g5_def[symmetric])
  have t6: "triples g6"
    unfolding triples_def
  proof (intro allI)
    fix c'
    have n6: "set (nodes (dag g4)) \<subseteq> set (nodes (dag g6))"
      "\<forall>v \<in> set (nodes (dag g6)). v \<in> set (nodes (dag g4)) \<or> snd v = WORKER"
      using wp by (auto simp: g6_def g5_def)
    have "\<And>k. k \<noteq> WORKER \<Longrightarrow> hasNode (dag g6) (C c') k \<longleftrightarrow> hasNode (dag g4) (C c') k"
      using n6 by (auto simp: hasNode_def)
    then show "(hasNode (dag g6) (C c') JOB = hasNode (dag g6) (C c') COMPONENTSETUP) \<and>
        (hasNode (dag g6) (C c') JOB = hasNode (dag g6) (C c') COMPONENTSTART)"
      using t0 by (auto simp: triples_def hasNode_def n4)
  qed
  show ?thesis using res c6 t6 by (simp add: inv_def)
qed

lemma inv_addComponent: "inv g \<Longrightarrow> inv (snd (addComponent g c))"
  using addComponent_absent addComponent_present by (cases "hasNode (dag g) (C c) JOB") auto

text \<open>removal\<close>

lemma DepGraph_removeNode_cases:
  "DepGraph_removeNode g x k =
     (if \<not> hasNode (dag g) x k then (Some NotFound, g)
      else (None, g\<lparr>dag := (dag g)\<lparr>nodes := removeAll (x, k) (nodes (dag g)),
                  edges := filter (\<lambda>e. fst e \<noteq> (x, k) \<and> snd e \<noteq> (x, k)) (edges (dag g))\<rparr>\<rparr>))"
  by (simp add: DepGraph_removeNode_def removeNode_def)

lemma without_simps [simp]:
  "nodes (dag (without g v)) = removeAll v (nodes (dag g))"
  "edges (dag (without g v)) = filter (\<lambda>e. fst e \<noteq> v \<and> snd e \<noteq> v) (edges (dag g))"
  "state (without g v) = (state g)(v := None)"
  by (simp_all add: without_def)

lemma core_without: "core g \<Longrightarrow> core (without g v)"
  unfolding core_def
  by (auto simp: distinct_removeAll elim: acyclic_subset)

lemma remove_step:
  assumes "core g" "hasNode (dag g) x k"
  shows "andThen (DepGraph_removeNode g x k) (\<lambda>g. andThen (delState g (x, k)) f)
           = f (without g (x, k))"
proof -
  have "state g (x, k) \<noteq> None" using assms by (auto simp: core_def hasNode_def)
  then show ?thesis using assms(2)
    by (auto simp: DepGraph_removeNode_cases delState_def without_def)
qed

lemma removeComponent_loop_ok:
  "core g \<Longrightarrow>
   fst (removeComponent_loop ts c g) = None \<and>
   core (snd (removeComponent_loop ts c g)) \<and>
   set (nodes (dag (snd (removeComponent_loop ts c g))))
     = set (nodes (dag g)) - {(C c, t) | t. t \<in> set ts}"
proof (induction ts arbitrary: g)
  case Nil
  then show ?case by simp
next
  case (Cons t ts)
  show ?case
  proof (cases "hasNode (dag g) (C c) t")
    case True
    have "removeComponent_loop (t # ts) c g = removeComponent_loop ts c (without g (C c, t))"
      using True remove_step[OF Cons.prems True] by simp
    then show ?thesis
      using Cons.IH[OF core_without[OF Cons.prems, of "(C c, t)"]] by auto
  next
    case False
    then show ?thesis using Cons.IH[OF Cons.prems] by (auto simp: hasNode_def)
  qed
qed

lemma removeComponent_ok:
  assumes "inv g"
  shows "fst (removeComponent g c) = None" and "inv (snd (removeComponent g c))"
proof -
  have c0: "core g" and t0: "triples g" using assms by (simp_all add: inv_def)
  note l = removeComponent_loop_ok[OF c0, of types c]
  show "fst (removeComponent g c) = None" using l by (simp add: removeComponent_def)
  have "triples (snd (removeComponent_loop types c g))"
    using t0 l unfolding triples_def hasNode_def types_def by auto
  then show "inv (snd (removeComponent g c))" using l by (simp add: removeComponent_def inv_def)
qed

lemma removeWorker_cases:
  assumes "core g"
  shows "removeWorker g w =
     (if hasNode (dag g) (W w) WORKER then (None, without g (W w, WORKER)) else (None, g))"
proof -
  have "hasNode (dag g) (W w) WORKER \<Longrightarrow> state g (W w, WORKER) \<noteq> None"
    using assms by (auto simp: core_def hasNode_def)
  then show ?thesis
    by (auto simp: removeWorker_def removeNode_def delState_def without_def)
qed

lemma inv_removeWorker:
  assumes "inv g" shows "inv (snd (removeWorker g w))"
proof -
  have c0: "core g" and t0: "triples g" using assms by (simp_all add: inv_def)
  have "triples (without g (W w, WORKER))"
    using t0 by (rule triples_cong) (auto simp: hasNode_def)
  then show ?thesis using assms c0 by (simp add: removeWorker_cases core_without inv_def)
qed

text \<open>mapEatersToFeeders only adds edges\<close>

lemma grows_refl [simp]: "grows g g"
  by (simp add: grows_def)

lemma grows_trans: "grows g g' \<Longrightarrow> grows g' g'' \<Longrightarrow> grows g g''"
  by (auto simp: grows_def)

lemma grows_addEdge:
  "rank pk \<le> rank ck \<Longrightarrow> grows g (snd (DepGraph_addEdge g p c pk ck))"
  unfolding grows_def
  using edges_DepGraph_addEdge_mono[of g p c pk ck] core_DepGraph_addEdge[of g pk ck p c]
  by simp

lemma grows_link: "grows g (snd (link g f e))"
proof -
  let ?r1 = "DepGraph_addEdge g f e COMPONENTSETUP COMPONENTSETUP"
  let ?r2 = "DepGraph_addEdge (snd ?r1) f e COMPONENTSTART COMPONENTSTART"
  have g1: "grows g (snd ?r1)" by (simp add: grows_addEdge)
  have g2: "grows (snd ?r1) (snd ?r2)" by (simp add: grows_addEdge)
  have "snd (link g f e) = snd ?r1 \<or> snd (link g f e) = snd ?r2"
    unfolding link_def exceptKeyError_def
    by (cases ?r1; cases ?r2) (auto split: option.splits if_splits)
  then show ?thesis using g1 g2 grows_trans by metis
qed

lemma feedercomp_loop_Nil: "feedercomp_loop [] e nm found g = (None, found, g)"
  by simp

lemma feedercomp_loop_W: "feedercomp_loop (W s # rest) e nm found g = (Some AttributeError, found, g)"
  by simp

lemma feedercomp_loop_other:
  "name fc \<noteq> nm \<Longrightarrow>
     feedercomp_loop (C fc # rest) e nm found g = feedercomp_loop rest e nm found g"
  by simp

lemma feedercomp_loop_ok:
  "name fc = nm \<Longrightarrow> fst (link g (C fc) e) = None \<Longrightarrow>
     feedercomp_loop (C fc # rest) e nm found g
       = feedercomp_loop rest e nm True (snd (link g (C fc) e))"
  by (auto simp: link_def split: prod.splits option.splits)

lemma feedercomp_loop_err:
  "name fc = nm \<Longrightarrow> fst (link g (C fc) e) = Some err \<Longrightarrow>
     fst (feedercomp_loop (C fc # rest) e nm found g) = Some err \<and>
     snd (snd (feedercomp_loop (C fc # rest) e nm found g)) = snd (link g (C fc) e)"
  by (auto simp: link_def split: prod.splits option.splits)

lemma grows_feedercomp_loop:
  "grows g (snd (snd (feedercomp_loop fs e nm found g)))"
proof (induction fs arbitrary: g found)
  case Nil
  then show ?case by simp
next
  case (Cons f fs)
  show ?case
  proof (cases f)
    case (W s)
    then show ?thesis by simp
  next
    case (C fc)
    show ?thesis
    proof (cases "name fc = nm")
      case False
      then show ?thesis using C Cons.IH by simp
    next
      case True
      show ?thesis
      proof (cases "fst (link g (C fc) e)")
        case None
        show ?thesis
          unfolding C feedercomp_loop_ok[OF True None]
          using grows_link[of g "C fc" e] Cons.IH grows_trans by blast
      next
        case (Some err)
        show ?thesis
          unfolding C using feedercomp_loop_err[OF True Some, of fs found] grows_link[of g "C fc" e]
          by simp
      qed
    qed
  qed
qed

lemma grows_eater_loop: "grows g (snd (eater_loop es cs e g))"
proof (induction es arbitrary: g)
  case Nil
  then show ?case by simp
next
  case (Cons a es)
  obtain x found g1 where r: "feedercomp_loop cs e (feederName a) False g = (x, found, g1)"
    by (metis prod.collapse)
  have "grows g g1" using grows_feedercomp_loop[of g cs e "feederName a" False] r by simp
  then show ?case using r Cons.IH[of g1]
    by (cases x) (auto intro: grows_trans)
qed

lemma grows_eatercomp_loop: "grows g (snd (eatercomp_loop ecs cs g))"
proof (induction ecs arbitrary: g)
  case Nil
  then show ?case by simp
next
  case (Cons e ecs)
  show ?case
  proof (cases e)
    case (W s)
    then show ?thesis by simp
  next
    case (C ec)
    show ?thesis
    proof (cases "source ec")
      case None
      then show ?thesis using C Cons.IH by simp
    next
      case (Some sv)
      have "grows g (snd (andThen (eater_loop (sourceList sv) cs e g) (eatercomp_loop ecs cs)))"
        by (rule snd_andThen_pres[where P = "grows g"])
           (auto intro: grows_eater_loop grows_trans Cons.IH)
      then show ?thesis using C Some by simp
    qed
  qed
qed

lemma grows_mapEatersToFeeders: "grows g (snd (mapEatersToFeeders g))"
  by (simp add: mapEatersToFeeders_def grows_eatercomp_loop)

lemma inv_mapEatersToFeeders: "inv g \<Longrightarrow> inv (snd (mapEatersToFeeders g))"
  using grows_mapEatersToFeeders[of g]
  by (auto simp: inv_def grows_def elim!: triples_same_nodes)

text \<open>all operations\<close>

lemma inv_apply_op: "inv g \<Longrightarrow> inv (snd (apply_op a g))"
  by (cases a)
     (simp_all add: inv_addClockMaster inv_addComponent inv_addWorker removeComponent_ok
        inv_removeWorker inv_setComponentWorker inv_mapEatersToFeeders inv_setState
        setComponentStarted_def setComponentNotStarted_def setComponentSetup_def
        setComponentNotSetup_def setJobStarted_def setJobStopped_def setWorkerStarted_def
        setWorkerStopped_def setClockMasterStarted_def setClockMasterStopped_def)

lemma inv_init: "inv init"
  by (simp add: inv_def core_def triples_def init_def empty_dag_def hasNode_def acyclic_def)

lemma inv_run: "inv g \<Longrightarrow> inv (run as g)"
  by (induction as arbitrary: g) (simp_all add: inv_apply_op)

lemma inv_reachable: "inv (run as init)"
  by (simp add: inv_run inv_init)

section \<open>The liveness keys are the vertices\<close>

lemma exact_DepGraph_addNode:
  "exact g \<Longrightarrow> wellTyped (x, k) \<Longrightarrow> exact (snd (DepGraph_addNode g x k))"
  by (auto simp: exact_def DepGraph_addNode_cases hasNode_def intro!: core_withNode)

lemma exact_DepGraph_addEdge:
  "exact g \<Longrightarrow> rank pk \<le> rank ck \<Longrightarrow> exact (snd (DepGraph_addEdge g p c pk ck))"
  unfolding exact_def by (simp add: core_DepGraph_addEdge)

lemma exact_grows: "exact g \<Longrightarrow> grows g g' \<Longrightarrow> exact g'"
  by (simp add: exact_def grows_def)

lemma exact_without: "exact g \<Longrightarrow> exact (without g v)"
  by (auto simp: exact_def core_without)

lemma exact_setState:
  "exact g \<Longrightarrow> hasNode (dag g) x k \<Longrightarrow> exact (setState g x k v)"
  unfolding exact_def
  by (cases v)
     (auto simp: core_setState dag_setState state_setState_True state_setState_False
        hasNode_def dom_def split: if_splits)

lemma exact_addWorker: "exact g \<Longrightarrow> exact (snd (addWorker g w))"
  by (simp add: addWorker_def exact_DepGraph_addNode)

lemma exact_setComponentWorker: "exact g \<Longrightarrow> exact (snd (setComponentWorker g c w))"
  by (simp add: setComponentWorker_def exact_DepGraph_addEdge)

lemma exact_addComponent: "exact g \<Longrightarrow> exact (snd (addComponent g c))"
  unfolding addComponent_def
  by (intro snd_andThen_pres[where P = exact])
     (auto simp: exact_DepGraph_addNode exact_DepGraph_addEdge exact_addWorker
        exact_setComponentWorker split: option.splits
        intro!: snd_andThen_pres[where P = exact])

lemma exact_addClockMaster_loop: "exact g \<Longrightarrow> exact (snd (addClockMaster_loop ss c g))"
  using addClockMaster_loop_pres[of g ss c] by (simp add: exact_def)

lemma exact_addClockMaster: "exact g \<Longrightarrow> exact (snd (addClockMaster g c))"
  unfolding addClockMaster_def
  by (auto simp: exact_DepGraph_addNode exact_DepGraph_addEdge exact_addClockMaster_loop
      intro!: snd_andThen_pres[where P = exact])

lemma exact_removeComponent_loop:
  "exact g \<Longrightarrow> exact (snd (removeComponent_loop ts c g))"
proof (induction ts arbitrary: g)
  case Nil
  then show ?case by simp
next
  case (Cons t ts)
  show ?case
  proof (cases "hasNode (dag g) (C c) t")
    case True
    have "core g" using Cons.prems by (simp add: exact_def)
    from remove_step[OF this True]
    have "removeComponent_loop (t # ts) c g = removeComponent_loop ts c (without g (C c, t))"
      using True by simp
    then show ?thesis using Cons.IH[OF exact_without[OF Cons.prems]] by simp
  next
    case False
    then show ?thesis using Cons by simp
  qed
qed

lemma exact_removeWorker: "exact g \<Longrightarrow> exact (snd (removeWorker g w))"
proof -
  assume e: "exact g"
  then have "core g" by (simp add: exact_def)
  then show ?thesis using e by (simp add: removeWorker_cases exact_without)
qed

lemma exact_mapEatersToFeeders: "exact g \<Longrightarrow> exact (snd (mapEatersToFeeders g))"
  using exact_grows grows_mapEatersToFeeders by blast

lemma exact_apply_op:
  assumes "exact g" "case setterTarget a of None \<Rightarrow> True | Some v \<Rightarrow> hasNode (dag g) (fst v) (snd v)"
  shows "exact (snd (apply_op a g))"
  using assms
  by (cases a)
     (simp_all add: exact_addClockMaster exact_addComponent exact_addWorker
        exact_removeComponent_loop removeComponent_def
        exact_removeWorker exact_setComponentWorker exact_mapEatersToFeeders exact_setState
        setComponentStarted_def setComponentNotStarted_def setComponentSetup_def
        setComponentNotSetup_def setJobStarted_def setJobStopped_def setWorkerStarted_def
        setWorkerStopped_def setClockMasterStarted_def setClockMasterStopped_def)

lemma exact_run: "exact g \<Longrightarrow> settersOnPresent as g \<Longrightarrow> exact (run as g)"
  by (induction as arbitrary: g) (simp_all add: exact_apply_op)

lemma exact_init: "exact init"
  by (simp add: exact_def core_def init_def empty_dag_def acyclic_def)

text \<open>
  A liveness setter does not look at the DAG before it writes: called for a worker that
  was never added, \<^verbatim>\<open>setWorkerStarted\<close> leaves a liveness entry for a vertex the
  graph does not have.
\<close>

theorem liveness_keys_counterexample:
  "dom (state (run [SetWorkerStarted ''w''] init))
     \<noteq> set (nodes (dag (run [SetWorkerStarted ''w''] init)))"
  by (simp add: setWorkerStarted_def setState_def init_def empty_dag_def)

text \<open>
  C5 (amended). After every sequence of public operations in which each liveness setter is
  called for a vertex that is in the graph at the time of the call, the key set of the
  liveness map equals the vertex set of the graph. Failed operations are part of the
  sequence: the run goes on from the graph they leave behind.
\<close>

theorem liveness_keys_are_vertices:
  "settersOnPresent as init \<Longrightarrow> dom (state (run as init)) = set (nodes (dag (run as init)))"
  using exact_run[OF exact_init] by (simp add: exact_def)

theorem liveness_keys_are_vertices_witness:
  "settersOnPresent [AddComponent comp_a, SetJobStarted comp_a, RemoveWorker ''w'',
      SetComponentNotSetup comp_a] init \<and>
   dom (state (run [AddComponent comp_a, SetJobStarted comp_a, RemoveWorker ''w'',
      SetComponentNotSetup comp_a] init))
     = {(C comp_a, JOB), (C comp_a, COMPONENTSTART), (C comp_a, COMPONENTSETUP)}"
proof -
  let ?as = "[AddComponent comp_a, SetJobStarted comp_a, RemoveWorker ''w'',
      SetComponentNotSetup comp_a]"
  have h: "settersOnPresent ?as init" by code_simp
  have n: "nodes (dag (run ?as init))
     = [(C comp_a, JOB), (C comp_a, COMPONENTSTART), (C comp_a, COMPONENTSETUP)]"
    by code_simp
  show ?thesis using liveness_keys_are_vertices[OF h] h n by simp
qed

section \<open>removeWorker\<close>

text \<open>
  \<^verbatim>\<open>removeWorker\<close> does not fail for an absent worker: the method tests
  \<^verbatim>\<open>hasNode\<close> first and has no \<^verbatim>\<open>else\<close> branch, so it returns normally.
\<close>

theorem removeWorker_absent_counterexample:
  "\<not> hasNode (dag init) (W ''w'') WORKER \<and> removeWorker init ''w'' = (None, init)"
  by (simp add: removeWorker_def hasNode_def init_def empty_dag_def)

text \<open>
  C6 (amended). In every graph the public operations can build, \<^verbatim>\<open>removeWorker(name)\<close>
  never raises. When the vertex \<open>(name, WORKER)\<close> is present it removes the vertex, the
  edges incident to it and its liveness entry, and nothing else; when the vertex is
  absent it returns normally and changes nothing.
\<close>

theorem removeWorker_effect:
  "fst (removeWorker (run as init) w) = None \<and>
   (if hasNode (dag (run as init)) (W w) WORKER
    then nodes (dag (snd (removeWorker (run as init) w)))
           = removeAll (W w, WORKER) (nodes (dag (run as init))) \<and>
         edges (dag (snd (removeWorker (run as init) w)))
           = filter (\<lambda>e. fst e \<noteq> (W w, WORKER) \<and> snd e \<noteq> (W w, WORKER))
               (edges (dag (run as init))) \<and>
         state (snd (removeWorker (run as init) w))
           = (state (run as init))((W w, WORKER) := None) \<and>
         \<not> hasNode (dag (snd (removeWorker (run as init) w))) (W w) WORKER
    else snd (removeWorker (run as init) w) = run as init)"
proof -
  have "core (run as init)" using inv_reachable[of as] by (simp add: inv_def)
  then show ?thesis by (simp add: removeWorker_cases hasNode_def)
qed

theorem removeWorker_effect_witness:
  "hasNode (dag (run [AddComponent comp_a] init)) (W ''w'') WORKER \<and>
   nodes (dag (snd (removeWorker (run [AddComponent comp_a] init) ''w'')))
     = [(C comp_a, JOB), (C comp_a, COMPONENTSTART), (C comp_a, COMPONENTSETUP)] \<and>
   state (snd (removeWorker (run [AddComponent comp_a] init) ''w'')) (W ''w'', WORKER) = None"
proof -
  have h: "hasNode (dag (run [AddComponent comp_a] init)) (W ''w'') WORKER" by code_simp
  have n: "removeAll (W ''w'', WORKER) (nodes (dag (run [AddComponent comp_a] init)))
     = [(C comp_a, JOB), (C comp_a, COMPONENTSTART), (C comp_a, COMPONENTSETUP)]"
    by code_simp
  show ?thesis using removeWorker_effect[of "[AddComponent comp_a]" "''w''"] h n by simp
qed

section \<open>mapEatersToFeeders is idempotent\<close>

lemma guarded_addEdge_cases:
  "exceptKeyError (DepGraph_addEdge g p c pk ck) =
     (if \<not> hasNode (dag g) p pk \<or> \<not> hasNode (dag g) c ck then (None, g)
      else if ((p, pk), (c, ck)) \<in> set (edges (dag g)) then (None, g)
      else if (p, pk) = (c, ck) \<or> ((c, ck), (p, pk)) \<in> (set (edges (dag g)))\<^sup>+
        then (Some WouldCycle, g)
      else (None, withEdge g (p, pk) (c, ck)))"
  by (simp add: DepGraph_addEdge_cases exceptKeyError_def)

lemma guarded_addEdge_stable:
  assumes "fst (exceptKeyError (DepGraph_addEdge g p c pk ck)) = None"
    and "nodes (dag g'') = nodes (dag g)"
    and "set (edges (dag (snd (exceptKeyError (DepGraph_addEdge g p c pk ck)))))
           \<subseteq> set (edges (dag g''))"
  shows "exceptKeyError (DepGraph_addEdge g'' p c pk ck) = (None, g'')"
proof (cases "\<not> hasNode (dag g) p pk \<or> \<not> hasNode (dag g) c ck")
  case True
  then have "\<not> hasNode (dag g'') p pk \<or> \<not> hasNode (dag g'') c ck"
    using assms(2) by (simp add: hasNode_def)
  then show ?thesis by (simp add: guarded_addEdge_cases)
next
  case False
  then have h: "hasNode (dag g'') p pk" "hasNode (dag g'') c ck"
    using assms(2) by (simp_all add: hasNode_def)
  have "((p, pk), (c, ck)) \<in> set (edges (dag (snd (exceptKeyError (DepGraph_addEdge g p c pk ck)))))"
    using assms(1) False by (auto simp: guarded_addEdge_cases split: if_splits)
  then have "((p, pk), (c, ck)) \<in> set (edges (dag g''))" using assms(3) by blast
  then show ?thesis using h by (simp add: guarded_addEdge_cases)
qed

lemma link_fst_snd:
  "link g f e =
     (if fst (exceptKeyError (DepGraph_addEdge g f e COMPONENTSETUP COMPONENTSETUP)) = None
      then exceptKeyError
             (DepGraph_addEdge (snd (DepGraph_addEdge g f e COMPONENTSETUP COMPONENTSETUP))
                f e COMPONENTSTART COMPONENTSTART)
      else exceptKeyError (DepGraph_addEdge g f e COMPONENTSETUP COMPONENTSETUP))"
proof -
  obtain a b where r: "exceptKeyError (DepGraph_addEdge g f e COMPONENTSETUP COMPONENTSETUP) = (a, b)"
    by (metis prod.collapse)
  have "b = snd (DepGraph_addEdge g f e COMPONENTSETUP COMPONENTSETUP)"
    using arg_cong[OF r, of snd] by simp
  then show ?thesis unfolding link_def r by (cases a) simp_all
qed

lemma link_stable:
  assumes l: "fst (link g f e) = None" and gr: "grows (snd (link g f e)) g''"
  shows "link g'' f e = (None, g'')"
proof -
  let ?r1 = "exceptKeyError (DepGraph_addEdge g f e COMPONENTSETUP COMPONENTSETUP)"
  let ?g1 = "snd (DepGraph_addEdge g f e COMPONENTSETUP COMPONENTSETUP)"
  let ?r2 = "exceptKeyError (DepGraph_addEdge ?g1 f e COMPONENTSTART COMPONENTSTART)"
  have f1: "fst ?r1 = None"
    using l by (cases "fst ?r1") (simp_all add: link_fst_snd)
  then have eq: "link g f e = ?r2" by (simp add: link_fst_snd)
  have f2: "fst ?r2 = None" using l eq by simp
  have n1: "nodes (dag ?g1) = nodes (dag g)" by simp
  have n: "nodes (dag g'') = nodes (dag g)" and sub2: "set (edges (dag (snd ?r2))) \<subseteq> set (edges (dag g''))"
    using gr eq by (simp_all add: grows_def)
  have "set (edges (dag ?g1)) \<subseteq> set (edges (dag (snd ?r2)))"
    using edges_DepGraph_addEdge_mono[of ?g1 f e COMPONENTSTART COMPONENTSTART] by simp
  then have sub1: "set (edges (dag (snd ?r1))) \<subseteq> set (edges (dag g''))" using sub2 by simp
  have s1: "exceptKeyError (DepGraph_addEdge g'' f e COMPONENTSETUP COMPONENTSETUP) = (None, g'')"
    by (rule guarded_addEdge_stable[OF f1 n sub1])
  have s2: "exceptKeyError (DepGraph_addEdge g'' f e COMPONENTSTART COMPONENTSTART) = (None, g'')"
    by (rule guarded_addEdge_stable[OF f2 _ sub2]) (simp add: n)
  have "snd (DepGraph_addEdge g'' f e COMPONENTSETUP COMPONENTSETUP) = g''"
    using arg_cong[OF s1, of snd] by simp
  then show ?thesis using s1 s2 by (simp add: link_fst_snd)
qed

lemma feedercomp_loop_stable:
  "feedercomp_loop fs e nm found g = (None, found', g') \<Longrightarrow> grows g' g'' \<Longrightarrow>
     feedercomp_loop fs e nm found g'' = (None, found', g'')"
proof (induction fs arbitrary: g found)
  case Nil
  then show ?case by simp
next
  case (Cons f fs)
  show ?case
  proof (cases f)
    case (W s)
    then show ?thesis using Cons.prems by simp
  next
    case (C fc)
    show ?thesis
    proof (cases "name fc = nm")
      case False
      then show ?thesis using C Cons by simp
    next
      case True
      have l: "fst (link g (C fc) e) = None"
      proof (cases "fst (link g (C fc) e)")
        case (Some err)
        then show ?thesis
          using feedercomp_loop_err[OF True Some, of fs found] Cons.prems(1) C by simp
      qed simp
      let ?g1 = "snd (link g (C fc) e)"
      have r: "feedercomp_loop fs e nm True ?g1 = (None, found', g')"
        using Cons.prems(1) C feedercomp_loop_ok[OF True l] by simp
      have "grows ?g1 g'" using grows_feedercomp_loop[of ?g1 fs e nm True] r by simp
      then have "grows ?g1 g''" using Cons.prems(2) grows_trans by blast
      then have l': "link g'' (C fc) e = (None, g'')" using link_stable[OF l] by simp
      have "feedercomp_loop (f # fs) e nm found g'' = feedercomp_loop fs e nm True g''"
        using C feedercomp_loop_ok[OF True, of g'' e fs found] l' by simp
      then show ?thesis using Cons.IH[OF r Cons.prems(2)] by simp
    qed
  qed
qed

lemma eater_loop_stable:
  "eater_loop es cs e g = (None, g') \<Longrightarrow> grows g' g'' \<Longrightarrow> eater_loop es cs e g'' = (None, g'')"
proof (induction es arbitrary: g)
  case Nil
  then show ?case by simp
next
  case (Cons a es)
  obtain x found g1 where r: "feedercomp_loop cs e (feederName a) False g = (x, found, g1)"
    by (metis prod.collapse)
  have x: "x = None" and f: "found" and rest: "eater_loop es cs e g1 = (None, g')"
    using Cons.prems(1) r by (auto split: option.splits if_splits)
  have "grows g1 g'" using grows_eater_loop[of g1 es cs e] rest by simp
  then have "grows g1 g''" using Cons.prems(2) grows_trans by blast
  then have "feedercomp_loop cs e (feederName a) False g'' = (None, found, g'')"
    using feedercomp_loop_stable r x by blast
  then show ?case using f Cons.IH[OF rest Cons.prems(2)] by simp
qed

lemma eatercomp_loop_stable:
  "eatercomp_loop ecs cs g = (None, g') \<Longrightarrow> grows g' g'' \<Longrightarrow>
     eatercomp_loop ecs cs g'' = (None, g'')"
proof (induction ecs arbitrary: g)
  case Nil
  then show ?case by simp
next
  case (Cons e ecs)
  show ?case
  proof (cases e)
    case (W s)
    then show ?thesis using Cons.prems by simp
  next
    case (C ec)
    show ?thesis
    proof (cases "source ec")
      case None
      then show ?thesis using C Cons by simp
    next
      case (Some sv)
      let ?r = "eater_loop (sourceList sv) cs e g"
      have x: "fst ?r = None"
        using Cons.prems(1) C Some by (cases "fst ?r") (auto simp: andThen_fst)
      then have r: "?r = (None, snd ?r)" by (metis prod.collapse)
      have rest: "eatercomp_loop ecs cs (snd ?r) = (None, g')"
        using Cons.prems(1) C Some x by (simp add: andThen_fst)
      have "grows (snd ?r) g'" using grows_eatercomp_loop[of "snd ?r" ecs cs] rest by simp
      then have "grows (snd ?r) g''" using Cons.prems(2) grows_trans by blast
      then have "eater_loop (sourceList sv) cs e g'' = (None, g'')"
        using eater_loop_stable r by blast
      then show ?thesis using C Some Cons.IH[OF rest Cons.prems(2)] by simp
    qed
  qed
qed

text \<open>
  C7. On every graph on which a call of \<^verbatim>\<open>mapEatersToFeeders\<close> completes, a second
  call right after it completes too and returns the graph the first call left: the
  same vertices, edges and liveness map. Every \<^verbatim>\<open>_addEdge\<close> of the second call meets
  an edge that is already there (or an absent endpoint), which is a \<^verbatim>\<open>KeyError\<close> and is
  swallowed.
\<close>

theorem mapEatersToFeeders_idempotent:
  "mapEatersToFeeders g = (None, g') \<Longrightarrow> mapEatersToFeeders g' = (None, g')"
proof -
  assume a: "mapEatersToFeeders g = (None, g')"
  have "grows g g'" using grows_mapEatersToFeeders[of g] a by simp
  then have "nodes (dag g') = nodes (dag g)" by (simp add: grows_def)
  then have "getAllNodesByType (dag g') COMPONENTSETUP = getAllNodesByType (dag g) COMPONENTSETUP"
    by (simp add: getAllNodesByType_def)
  then show ?thesis
    using a eatercomp_loop_stable[of _ _ g g' g'] by (simp add: mapEatersToFeeders_def)
qed

theorem mapEatersToFeeders_idempotent_witness:
  "fst (mapEatersToFeeders (run [AddComponent comp_a, AddComponent comp_c] init)) = None \<and>
   edges (dag (snd (mapEatersToFeeders (run [AddComponent comp_a, AddComponent comp_c] init))))
     \<noteq> edges (dag (run [AddComponent comp_a, AddComponent comp_c] init)) \<and>
   mapEatersToFeeders (snd (mapEatersToFeeders (run [AddComponent comp_a, AddComponent comp_c] init)))
     = (None, snd (mapEatersToFeeders (run [AddComponent comp_a, AddComponent comp_c] init)))"
proof -
  let ?g = "run [AddComponent comp_a, AddComponent comp_c] init"
  have h: "fst (mapEatersToFeeders ?g) = None" by code_simp
  then have h': "mapEatersToFeeders ?g = (None, snd (mapEatersToFeeders ?g))"
    by (metis prod.collapse)
  have d: "edges (dag (snd (mapEatersToFeeders ?g))) \<noteq> edges (dag ?g)" by code_simp
  show ?thesis using mapEatersToFeeders_idempotent[OF h'] h d by simp
qed

section \<open>mapEatersToFeeders links every matching component\<close>

lemma guarded_addEdge_adds:
  assumes "fst (exceptKeyError (DepGraph_addEdge g p c pk ck)) = None"
    "hasNode (dag g) p pk" "hasNode (dag g) c ck"
  shows "((p, pk), (c, ck)) \<in> set (edges (dag (snd (DepGraph_addEdge g p c pk ck))))"
  using assms by (auto simp: exceptKeyError_def DepGraph_addEdge_cases split: if_splits)

lemma guarded_addEdge_error:
  "fst (exceptKeyError (DepGraph_addEdge g p c pk ck)) = Some err \<Longrightarrow> err = WouldCycle"
  by (auto simp: guarded_addEdge_cases split: if_splits)

lemma linked_grows: "linked g f e \<Longrightarrow> grows g g' \<Longrightarrow> linked g' f e"
  unfolding linked_def grows_def hasNode_def by auto

lemma link_adds:
  assumes l: "fst (link g f e) = None"
  shows "linked (snd (link g f e)) f e"
proof -
  let ?r1 = "exceptKeyError (DepGraph_addEdge g f e COMPONENTSETUP COMPONENTSETUP)"
  let ?g1 = "snd (DepGraph_addEdge g f e COMPONENTSETUP COMPONENTSETUP)"
  let ?r2 = "exceptKeyError (DepGraph_addEdge ?g1 f e COMPONENTSTART COMPONENTSTART)"
  let ?g2 = "snd (DepGraph_addEdge ?g1 f e COMPONENTSTART COMPONENTSTART)"
  have f1: "fst ?r1 = None"
    using l by (cases "fst ?r1") (simp_all add: link_fst_snd)
  then have eq: "link g f e = ?r2" by (simp add: link_fst_snd)
  have f2: "fst ?r2 = None" using l eq by simp
  have g2: "snd (link g f e) = ?g2" using eq by simp
  have a: "hasNode (dag g) f COMPONENTSETUP \<and> hasNode (dag g) e COMPONENTSETUP \<Longrightarrow>
      ((f, COMPONENTSETUP), (e, COMPONENTSETUP)) \<in> set (edges (dag ?g2))"
    using guarded_addEdge_adds[OF f1]
      edges_DepGraph_addEdge_mono[of ?g1 f e COMPONENTSTART COMPONENTSTART] by blast
  have b: "hasNode (dag g) f COMPONENTSTART \<and> hasNode (dag g) e COMPONENTSTART \<Longrightarrow>
      ((f, COMPONENTSTART), (e, COMPONENTSTART)) \<in> set (edges (dag ?g2))"
    using guarded_addEdge_adds[OF f2] by (simp add: hasNode_def)
  show ?thesis unfolding g2 linked_def using a b by (simp add: hasNode_def)
qed

lemma link_error: "fst (link g f e) = Some err \<Longrightarrow> err = WouldCycle"
  using guarded_addEdge_error by (auto simp: link_fst_snd split: if_splits)

lemma feedercomp_loop_adds:
  "feedercomp_loop fs e nm found g = (None, found', g') \<Longrightarrow>
     found' = (found \<or> (\<exists>fc. C fc \<in> set fs \<and> name fc = nm)) \<and>
     (\<forall>fc. C fc \<in> set fs \<and> name fc = nm \<longrightarrow> linked g' (C fc) e)"
proof (induction fs arbitrary: g found)
  case Nil
  then show ?case by simp
next
  case (Cons f fs)
  show ?case
  proof (cases f)
    case (W s)
    then show ?thesis using Cons.prems by simp
  next
    case (C fc)
    show ?thesis
    proof (cases "name fc = nm")
      case False
      then have "feedercomp_loop fs e nm found g = (None, found', g')"
        using C Cons.prems by simp
      from Cons.IH[OF this] show ?thesis using C False by auto
    next
      case True
      have l: "fst (link g (C fc) e) = None"
      proof (cases "fst (link g (C fc) e)")
        case (Some err)
        then show ?thesis
          using feedercomp_loop_err[OF True Some, of fs found] Cons.prems(1) C by simp
      qed simp
      let ?g1 = "snd (link g (C fc) e)"
      have r: "feedercomp_loop fs e nm True ?g1 = (None, found', g')"
        using Cons.prems(1) C feedercomp_loop_ok[OF True l] by simp
      have "grows ?g1 g'" using grows_feedercomp_loop[of ?g1 fs e nm True] r by simp
      then have "linked g' (C fc) e" using link_adds[OF l] linked_grows by blast
      then show ?thesis using Cons.IH[OF r] C True by auto
    qed
  qed
qed

lemma feedercomp_loop_error:
  "fst (feedercomp_loop fs e nm found g) = Some err \<Longrightarrow> err = WouldCycle \<or> err = AttributeError"
proof (induction fs arbitrary: g found)
  case Nil
  then show ?case by simp
next
  case (Cons f fs)
  show ?case
  proof (cases f)
    case (W s)
    then show ?thesis using Cons.prems by simp
  next
    case (C fc)
    show ?thesis
    proof (cases "name fc = nm")
      case False
      then show ?thesis using C Cons by auto
    next
      case True
      show ?thesis
      proof (cases "fst (link g (C fc) e)")
        case (Some err')
        then show ?thesis
          using feedercomp_loop_err[OF True Some, of fs found] Cons.prems(1) C link_error
          by auto
      next
        case None
        then show ?thesis
          using Cons.prems(1) C feedercomp_loop_ok[OF True None] Cons.IH by simp
      qed
    qed
  qed
qed

lemma eater_loop_adds:
  "eater_loop es cs e g = (None, g') \<Longrightarrow>
     \<forall>s \<in> set es. (\<exists>fc. C fc \<in> set cs \<and> name fc = feederName s) \<and>
        (\<forall>fc. C fc \<in> set cs \<and> name fc = feederName s \<longrightarrow> linked g' (C fc) e)"
proof (induction es arbitrary: g)
  case Nil
  then show ?case by simp
next
  case (Cons a es)
  obtain x found g1 where r: "feedercomp_loop cs e (feederName a) False g = (x, found, g1)"
    by (metis prod.collapse)
  have x: "x = None" and f: "found" and rest: "eater_loop es cs e g1 = (None, g')"
    using Cons.prems(1) r by (auto split: option.splits if_splits)
  have gr: "grows g1 g'" using grows_eater_loop[of g1 es cs e] rest by simp
  have "(\<exists>fc. C fc \<in> set cs \<and> name fc = feederName a) \<and>
        (\<forall>fc. C fc \<in> set cs \<and> name fc = feederName a \<longrightarrow> linked g1 (C fc) e)"
    using feedercomp_loop_adds[of cs e "feederName a" False g found g1] r x f by simp
  then have "(\<exists>fc. C fc \<in> set cs \<and> name fc = feederName a) \<and>
        (\<forall>fc. C fc \<in> set cs \<and> name fc = feederName a \<longrightarrow> linked g' (C fc) e)"
    using linked_grows[OF _ gr] by blast
  then show ?case using Cons.IH[OF rest] by simp
qed

lemma eatercomp_loop_adds:
  "eatercomp_loop ecs cs g = (None, g') \<Longrightarrow>
     \<forall>ec sv s. C ec \<in> set ecs \<and> source ec = Some sv \<and> s \<in> set (sourceList sv) \<longrightarrow>
        (\<exists>fc. C fc \<in> set cs \<and> name fc = feederName s) \<and>
        (\<forall>fc. C fc \<in> set cs \<and> name fc = feederName s \<longrightarrow> linked g' (C fc) (C ec))"
proof (induction ecs arbitrary: g)
  case Nil
  then show ?case by simp
next
  case (Cons e ecs)
  show ?case
  proof (cases e)
    case (W s)
    then show ?thesis using Cons.prems by simp
  next
    case (C ec)
    show ?thesis
    proof (cases "source ec")
      case None
      then have "eatercomp_loop ecs cs g = (None, g')" using C Cons.prems by simp
      from Cons.IH[OF this] show ?thesis using C None by auto
    next
      case (Some sv)
      let ?r = "eater_loop (sourceList sv) cs e g"
      have x: "fst ?r = None"
        using Cons.prems(1) C Some by (cases "fst ?r") (auto simp: andThen_fst)
      then have r: "?r = (None, snd ?r)" by (metis prod.collapse)
      have rest: "eatercomp_loop ecs cs (snd ?r) = (None, g')"
        using Cons.prems(1) C Some x by (simp add: andThen_fst)
      have gr: "grows (snd ?r) g'" using grows_eatercomp_loop[of "snd ?r" ecs cs] rest by simp
      have here: "\<forall>s \<in> set (sourceList sv). (\<exists>fc. C fc \<in> set cs \<and> name fc = feederName s) \<and>
        (\<forall>fc. C fc \<in> set cs \<and> name fc = feederName s \<longrightarrow> linked g' (C fc) (C ec))"
        using eater_loop_adds[OF r] linked_grows[OF _ gr] C by blast
      show ?thesis
      proof (intro allI impI)
        fix ec' sv' s
        assume a: "C ec' \<in> set (e # ecs) \<and> source ec' = Some sv' \<and> s \<in> set (sourceList sv')"
        show "(\<exists>fc. C fc \<in> set cs \<and> name fc = feederName s) \<and>
          (\<forall>fc. C fc \<in> set cs \<and> name fc = feederName s \<longrightarrow> linked g' (C fc) (C ec'))"
        proof (cases "ec' = ec")
          case True
          then show ?thesis using a Some here by auto
        next
          case False
          then have "C ec' \<in> set ecs" using a C by auto
          then show ?thesis using Cons.IH[OF rest] a by blast
        qed
      qed
    qed
  qed
qed

lemma in_getAllNodesByType: "x \<in> set (getAllNodesByType d k) \<longleftrightarrow> hasNode d x k"
  by (force simp: getAllNodesByType_def hasNode_def)

lemma guarded_addEdge_raises:
  assumes "fst (exceptKeyError (DepGraph_addEdge g p c pk ck)) = Some err"
  shows "err = WouldCycle \<and> snd (DepGraph_addEdge g p c pk ck) = g \<and>
         closesCycle g (p, pk) (c, ck)"
  using assms
  by (auto simp: exceptKeyError_def DepGraph_addEdge_cases closesCycle_def split: if_splits)

lemma link_raises:
  assumes "fst (link g f e) = Some err"
  shows "err = WouldCycle \<and>
    (closesCycle (snd (link g f e)) (f, COMPONENTSETUP) (e, COMPONENTSETUP) \<or>
     closesCycle (snd (link g f e)) (f, COMPONENTSTART) (e, COMPONENTSTART))"
proof -
  let ?r1 = "exceptKeyError (DepGraph_addEdge g f e COMPONENTSETUP COMPONENTSETUP)"
  let ?g1 = "snd (DepGraph_addEdge g f e COMPONENTSETUP COMPONENTSETUP)"
  let ?r2 = "exceptKeyError (DepGraph_addEdge ?g1 f e COMPONENTSTART COMPONENTSTART)"
  show ?thesis
  proof (cases "fst ?r1")
    case None
    then have eq: "link g f e = ?r2" by (simp add: link_fst_snd)
    then have "fst ?r2 = Some err" using assms by simp
    from guarded_addEdge_raises[OF this] show ?thesis unfolding eq by simp
  next
    case (Some err')
    then have eq: "link g f e = ?r1" by (simp add: link_fst_snd)
    then have "fst ?r1 = Some err" using assms by simp
    from guarded_addEdge_raises[OF this] show ?thesis unfolding eq by simp
  qed
qed

lemma feedercomp_loop_raises:
  "fst (feedercomp_loop fs e nm found g) = Some err \<Longrightarrow>
     (err = AttributeError \<and> (\<exists>w. W w \<in> set fs)) \<or>
     (err = WouldCycle \<and>
      (\<exists>fc k. C fc \<in> set fs \<and> name fc = nm \<and> (k = COMPONENTSETUP \<or> k = COMPONENTSTART) \<and>
         closesCycle (snd (snd (feedercomp_loop fs e nm found g))) (C fc, k) (e, k)))"
proof (induction fs arbitrary: g found)
  case Nil
  then show ?case by simp
next
  case (Cons f fs)
  show ?case
  proof (cases f)
    case (W s)
    then show ?thesis using Cons.prems by auto
  next
    case (C fc)
    show ?thesis
    proof (cases "name fc = nm")
      case False
      then have eq: "feedercomp_loop (f # fs) e nm found g = feedercomp_loop fs e nm found g"
        using C by simp
      then have "fst (feedercomp_loop fs e nm found g) = Some err" using Cons.prems by simp
      from Cons.IH[OF this] show ?thesis unfolding eq by auto
    next
      case True
      show ?thesis
      proof (cases "fst (link g (C fc) e)")
        case None
        have eq: "feedercomp_loop (f # fs) e nm found g
            = feedercomp_loop fs e nm True (snd (link g (C fc) e))"
          unfolding C by (rule feedercomp_loop_ok[OF True None])
        then have "fst (feedercomp_loop fs e nm True (snd (link g (C fc) e))) = Some err"
          using Cons.prems by simp
        from Cons.IH[OF this] show ?thesis unfolding eq by auto
      next
        case (Some err')
        note fe = feedercomp_loop_err[OF True Some, of fs found]
        have "err' = err" using fe Cons.prems C by simp
        then have "err = WouldCycle \<and>
          (closesCycle (snd (link g (C fc) e)) (C fc, COMPONENTSETUP) (e, COMPONENTSETUP) \<or>
           closesCycle (snd (link g (C fc) e)) (C fc, COMPONENTSTART) (e, COMPONENTSTART))"
          using link_raises[OF Some] by simp
        then show ?thesis using fe C True by auto
      qed
    qed
  qed
qed

lemma eater_loop_raises:
  "fst (eater_loop es cs e g) = Some err \<Longrightarrow>
     (\<exists>s. err = Unresolved s \<and> s \<in> set es \<and>
          \<not> (\<exists>fc. C fc \<in> set cs \<and> name fc = feederName s)) \<or>
     (err = AttributeError \<and> (\<exists>w. W w \<in> set cs)) \<or>
     (err = WouldCycle \<and>
      (\<exists>s fc k. s \<in> set es \<and> C fc \<in> set cs \<and> name fc = feederName s \<and>
         (k = COMPONENTSETUP \<or> k = COMPONENTSTART) \<and>
         closesCycle (snd (eater_loop es cs e g)) (C fc, k) (e, k)))"
proof (induction es arbitrary: g)
  case Nil
  then show ?case by simp
next
  case (Cons a es)
  obtain x found g1 where r: "feedercomp_loop cs e (feederName a) False g = (x, found, g1)"
    by (metis prod.collapse)
  show ?case
  proof (cases x)
    case (Some err')
    then have eq: "eater_loop (a # es) cs e g = (Some err', g1)" using r by simp
    then have ee: "err' = err" using Cons.prems by simp
    have "fst (feedercomp_loop cs e (feederName a) False g) = Some err" using r Some ee by simp
    from feedercomp_loop_raises[OF this] have
      "(err = AttributeError \<and> (\<exists>w. W w \<in> set cs)) \<or>
       (err = WouldCycle \<and>
        (\<exists>fc k. C fc \<in> set cs \<and> name fc = feederName a \<and>
           (k = COMPONENTSETUP \<or> k = COMPONENTSTART) \<and> closesCycle g1 (C fc, k) (e, k)))"
      using r by simp
    moreover have "a \<in> set (a # es)" by simp
    ultimately show ?thesis unfolding eq snd_conv by (elim disjE) blast+
  next
    case None
    show ?thesis
    proof (cases found)
      case False
      then have eq: "eater_loop (a # es) cs e g = (Some (Unresolved a), g1)"
        using r None by simp
      have "\<not> (\<exists>fc. C fc \<in> set cs \<and> name fc = feederName a)"
        using feedercomp_loop_adds[of cs e "feederName a" False g found g1] r None False by simp
      then show ?thesis using eq Cons.prems by auto
    next
      case True
      then have eq: "eater_loop (a # es) cs e g = eater_loop es cs e g1" using r None by simp
      then have "fst (eater_loop es cs e g1) = Some err" using Cons.prems by simp
      from Cons.IH[OF this] show ?thesis unfolding eq by (elim disjE) (simp; blast)+
    qed
  qed
qed

lemma eatercomp_loop_raises:
  "fst (eatercomp_loop ecs cs g) = Some err \<Longrightarrow>
     (\<exists>s ec sv. err = Unresolved s \<and> C ec \<in> set ecs \<and> source ec = Some sv \<and>
          s \<in> set (sourceList sv) \<and> \<not> (\<exists>fc. C fc \<in> set cs \<and> name fc = feederName s)) \<or>
     (err = AttributeError \<and> (\<exists>w. W w \<in> set ecs \<or> W w \<in> set cs)) \<or>
     (err = WouldCycle \<and>
      (\<exists>ec sv s fc k. C ec \<in> set ecs \<and> source ec = Some sv \<and> s \<in> set (sourceList sv) \<and>
         C fc \<in> set cs \<and> name fc = feederName s \<and>
         (k = COMPONENTSETUP \<or> k = COMPONENTSTART) \<and>
         closesCycle (snd (eatercomp_loop ecs cs g)) (C fc, k) (C ec, k)))"
proof (induction ecs arbitrary: g)
  case Nil
  then show ?case by simp
next
  case (Cons e ecs)
  show ?case
  proof (cases e)
    case (W s)
    then show ?thesis using Cons.prems by auto
  next
    case (C ec)
    show ?thesis
    proof (cases "source ec")
      case None
      then have eq: "eatercomp_loop (e # ecs) cs g = eatercomp_loop ecs cs g" using C by simp
      then have "fst (eatercomp_loop ecs cs g) = Some err" using Cons.prems by simp
      from Cons.IH[OF this] show ?thesis unfolding eq by (elim disjE) (simp; blast)+
    next
      case (Some sv)
      let ?r = "eater_loop (sourceList sv) cs e g"
      show ?thesis
      proof (cases "fst ?r")
        case None
        then have eq: "eatercomp_loop (e # ecs) cs g = eatercomp_loop ecs cs (snd ?r)"
          using C Some by (simp add: andThen_fst)
        then have "fst (eatercomp_loop ecs cs (snd ?r)) = Some err" using Cons.prems by simp
        from Cons.IH[OF this] show ?thesis unfolding eq by (elim disjE) (simp; blast)+
      next
        case (Some err')
        then have eq: "eatercomp_loop (e # ecs) cs g = (Some err', snd ?r)"
          using C \<open>source ec = Some sv\<close> by (simp add: andThen_fst)
        then have "fst ?r = Some err" using Some Cons.prems by simp
        from eater_loop_raises[OF this] have
          "(\<exists>s. err = Unresolved s \<and> s \<in> set (sourceList sv) \<and>
              \<not> (\<exists>fc. C fc \<in> set cs \<and> name fc = feederName s)) \<or>
           (err = AttributeError \<and> (\<exists>w. W w \<in> set cs)) \<or>
           (err = WouldCycle \<and>
            (\<exists>s fc k. s \<in> set (sourceList sv) \<and> C fc \<in> set cs \<and> name fc = feederName s \<and>
               (k = COMPONENTSETUP \<or> k = COMPONENTSTART) \<and>
               closesCycle (snd ?r) (C fc, k) (C ec, k)))"
          unfolding C .
        moreover have "C ec \<in> set (e # ecs)" using C by simp
        ultimately show ?thesis
          unfolding eq snd_conv using \<open>source ec = Some sv\<close> by (elim disjE) blast+
      qed
    qed
  qed
qed

lemma no_worker_in_setups:
  "W w \<notin> set (getAllNodesByType (dag (run as init)) COMPONENTSETUP)"
proof
  assume "W w \<in> set (getAllNodesByType (dag (run as init)) COMPONENTSETUP)"
  then have "(W w, COMPONENTSETUP) \<in> set (nodes (dag (run as init)))"
    by (simp add: in_getAllNodesByType hasNode_def)
  moreover have "core (run as init)" using inv_reachable[of as] by (simp add: inv_def)
  ultimately have "wellTyped (W w, COMPONENTSETUP)" unfolding core_def by blast
  then show False by simp
qed

text \<open>
  A component that names itself as its source is matched by a component of the graph,
  namely itself, and \<^verbatim>\<open>mapEatersToFeeders\<close> still fails: the edge from its setup
  vertex to itself would close a cycle, and that error is not a \<^verbatim>\<open>KeyError\<close>.
\<close>

theorem mapEatersToFeeders_cycle_counterexample:
  "C comp_p \<in> set (getAllNodesByType (dag (run [AddComponent comp_p] init)) COMPONENTSETUP) \<and>
   source comp_p = Some (Str ''p'') \<and> ''p'' \<in> set (sourceList (Str ''p'')) \<and>
   name comp_p = feederName ''p'' \<and>
   fst (mapEatersToFeeders (run [AddComponent comp_p] init)) = Some WouldCycle"
  by code_simp

text \<open>
  C10 (amended). Let \<open>cs\<close> be the objects of all \<open>COMPONENTSETUP\<close> vertices of the graph,
  and let \<open>s\<close> be a source entry of a component \<open>ec\<close> in \<open>cs\<close>; a component \<open>fc\<close> in
  \<open>cs\<close> matches when its name is the part of \<open>s\<close> before the first colon. The parent
  flows play no part in the match.
  \<^item> When \<^verbatim>\<open>mapEatersToFeeders\<close> completes, the setup edge from every matching \<open>fc\<close> to
    \<open>ec\<close> is in the graph, and so is the start edge as far as both start vertices exist.
  \<^item> When the loop over the components for one entry ends without an exception, the two
    edges from every matching component to the eater are in the graph (each as far as
    its endpoints are), whatever happens to later entries.
  \<^item> When some entry of a component in \<open>cs\<close> has no matching component, the call does not
    complete.
  \<^item> When the call raises, it raises either the error that an entry has no mapped
    feeder, for an entry of a component in \<open>cs\<close> that no component in \<open>cs\<close> matches, or
    the cycle error of \<^verbatim>\<open>addEdge\<close>, for a setup or start edge from a matching component
    to the eater that would close a cycle in the graph as it stands; an edge that is
    already there or lacks an endpoint raises nothing. (An attribute error needs a
    worker name among the \<open>COMPONENTSETUP\<close> objects, which the public operations never
    produce.)
\<close>

theorem mapEatersToFeeders_matching:
  "(mapEatersToFeeders g = (None, g') \<and>
    C ec \<in> set (getAllNodesByType (dag g) COMPONENTSETUP) \<and>
    source ec = Some sv \<and> s \<in> set (sourceList sv) \<and>
    C fc \<in> set (getAllNodesByType (dag g) COMPONENTSETUP) \<and> name fc = feederName s \<longrightarrow>
      ((C fc, COMPONENTSETUP), (C ec, COMPONENTSETUP)) \<in> set (edges (dag g')) \<and>
      (hasNode (dag g) (C fc) COMPONENTSTART \<and> hasNode (dag g) (C ec) COMPONENTSTART \<longrightarrow>
         ((C fc, COMPONENTSTART), (C ec, COMPONENTSTART)) \<in> set (edges (dag g')))) \<and>
   (fst (feedercomp_loop cs e (feederName s) False g0) = None \<and>
    C fc \<in> set cs \<and> name fc = feederName s \<longrightarrow>
      linked (snd (snd (feedercomp_loop cs e (feederName s) False g0))) (C fc) e) \<and>
   (C ec \<in> set (getAllNodesByType (dag g) COMPONENTSETUP) \<and>
    source ec = Some sv \<and> s \<in> set (sourceList sv) \<and>
    \<not> (\<exists>fc. C fc \<in> set (getAllNodesByType (dag g) COMPONENTSETUP) \<and> name fc = feederName s)
      \<longrightarrow> fst (mapEatersToFeeders g) \<noteq> None) \<and>
   (fst (mapEatersToFeeders g) = Some err \<longrightarrow>
      (\<exists>s ec sv. err = Unresolved s \<and>
         C ec \<in> set (getAllNodesByType (dag g) COMPONENTSETUP) \<and>
         source ec = Some sv \<and> s \<in> set (sourceList sv) \<and>
         \<not> (\<exists>fc. C fc \<in> set (getAllNodesByType (dag g) COMPONENTSETUP) \<and>
                name fc = feederName s)) \<or>
      (err = AttributeError \<and>
         (\<exists>w. W w \<in> set (getAllNodesByType (dag g) COMPONENTSETUP))) \<or>
      (err = WouldCycle \<and>
         (\<exists>ec sv s fc k.
            C ec \<in> set (getAllNodesByType (dag g) COMPONENTSETUP) \<and>
            source ec = Some sv \<and> s \<in> set (sourceList sv) \<and>
            C fc \<in> set (getAllNodesByType (dag g) COMPONENTSETUP) \<and>
            name fc = feederName s \<and> (k = COMPONENTSETUP \<or> k = COMPONENTSTART) \<and>
            closesCycle (snd (mapEatersToFeeders g)) (C fc, k) (C ec, k)))) \<and>
   W w \<notin> set (getAllNodesByType (dag (run as init)) COMPONENTSETUP)"
proof (intro conjI impI)
  let ?cs = "getAllNodesByType (dag g) COMPONENTSETUP"
  assume a: "mapEatersToFeeders g = (None, g') \<and> C ec \<in> set ?cs \<and>
    source ec = Some sv \<and> s \<in> set (sourceList sv) \<and> C fc \<in> set ?cs \<and> name fc = feederName s"
  then have "eatercomp_loop ?cs ?cs g = (None, g')" by (simp add: mapEatersToFeeders_def)
  from eatercomp_loop_adds[OF this] a have l: "linked g' (C fc) (C ec)" by blast
  have "grows g g'" using grows_mapEatersToFeeders[of g] a by simp
  then have n: "nodes (dag g') = nodes (dag g)" by (simp add: grows_def)
  have "hasNode (dag g) (C fc) COMPONENTSETUP" "hasNode (dag g) (C ec) COMPONENTSETUP"
    using a by (simp_all add: in_getAllNodesByType)
  then show "((C fc, COMPONENTSETUP), (C ec, COMPONENTSETUP)) \<in> set (edges (dag g'))"
    using l n by (simp add: linked_def hasNode_def)
  assume "hasNode (dag g) (C fc) COMPONENTSTART \<and> hasNode (dag g) (C ec) COMPONENTSTART"
  then show "((C fc, COMPONENTSTART), (C ec, COMPONENTSTART)) \<in> set (edges (dag g'))"
    using l n by (simp add: linked_def hasNode_def)
next
  let ?r = "feedercomp_loop cs e (feederName s) False g0"
  assume a: "fst ?r = None \<and> C fc \<in> set cs \<and> name fc = feederName s"
  then have "?r = (None, fst (snd ?r), snd (snd ?r))" by (metis prod.collapse)
  from feedercomp_loop_adds[OF this] a show "linked (snd (snd ?r)) (C fc) e" by blast
next
  let ?cs = "getAllNodesByType (dag g) COMPONENTSETUP"
  assume a: "C ec \<in> set ?cs \<and> source ec = Some sv \<and> s \<in> set (sourceList sv) \<and>
    \<not> (\<exists>fc. C fc \<in> set ?cs \<and> name fc = feederName s)"
  show "fst (mapEatersToFeeders g) \<noteq> None"
  proof
    assume "fst (mapEatersToFeeders g) = None"
    then have "eatercomp_loop ?cs ?cs g = (None, snd (mapEatersToFeeders g))"
      by (metis mapEatersToFeeders_def prod.collapse)
    from eatercomp_loop_adds[OF this] a show False by blast
  qed
next
  let ?cs = "getAllNodesByType (dag g) COMPONENTSETUP"
  assume "fst (mapEatersToFeeders g) = Some err"
  then have "fst (eatercomp_loop ?cs ?cs g) = Some err" by (simp add: mapEatersToFeeders_def)
  from eatercomp_loop_raises[OF this]
  show "(\<exists>s ec sv. err = Unresolved s \<and> C ec \<in> set ?cs \<and>
         source ec = Some sv \<and> s \<in> set (sourceList sv) \<and>
         \<not> (\<exists>fc. C fc \<in> set ?cs \<and> name fc = feederName s)) \<or>
      (err = AttributeError \<and> (\<exists>w. W w \<in> set ?cs)) \<or>
      (err = WouldCycle \<and>
         (\<exists>ec sv s fc k. C ec \<in> set ?cs \<and>
            source ec = Some sv \<and> s \<in> set (sourceList sv) \<and>
            C fc \<in> set ?cs \<and>
            name fc = feederName s \<and> (k = COMPONENTSETUP \<or> k = COMPONENTSTART) \<and>
            closesCycle (snd (mapEatersToFeeders g)) (C fc, k) (C ec, k)))"
    unfolding mapEatersToFeeders_def by (elim disjE) blast+
next
  show "W w \<notin> set (getAllNodesByType (dag (run as init)) COMPONENTSETUP)"
    by (rule no_worker_in_setups)
qed

theorem mapEatersToFeeders_matching_witness:
  "parent comp_e = parent comp_c \<and> parent comp_d \<noteq> parent comp_c \<and>
   ((C comp_e, COMPONENTSETUP), (C comp_c, COMPONENTSETUP))
     \<in> set (edges (dag (snd (mapEatersToFeeders
           (run [AddComponent comp_e, AddComponent comp_d, AddComponent comp_c] init))))) \<and>
   ((C comp_d, COMPONENTSTART), (C comp_c, COMPONENTSTART))
     \<in> set (edges (dag (snd (mapEatersToFeeders
           (run [AddComponent comp_e, AddComponent comp_d, AddComponent comp_c] init))))) \<and>
   fst (mapEatersToFeeders (run [AddComponent comp_d, AddComponent comp_f] init)) = None \<and>
   ((C comp_d, COMPONENTSETUP), (C comp_f, COMPONENTSETUP))
     \<in> set (edges (dag (snd (mapEatersToFeeders
           (run [AddComponent comp_d, AddComponent comp_f] init))))) \<and>
   linked (snd (snd (feedercomp_loop [C comp_d] (C comp_f) (feederName ''a:x'') False
             (run [AddComponent comp_d, AddComponent comp_f] init))))
     (C comp_d) (C comp_f) \<and>
   fst (mapEatersToFeeders (run [AddComponent comp_e, AddComponent comp_b] init)) \<noteq> None \<and>
   fst (mapEatersToFeeders (run [AddComponent comp_p] init)) = Some WouldCycle \<and>
   (\<exists>ec sv s fc k.
      C ec \<in> set (getAllNodesByType (dag (run [AddComponent comp_p] init)) COMPONENTSETUP) \<and>
      source ec = Some sv \<and> s \<in> set (sourceList sv) \<and>
      C fc \<in> set (getAllNodesByType (dag (run [AddComponent comp_p] init)) COMPONENTSETUP) \<and>
      name fc = feederName s \<and> (k = COMPONENTSETUP \<or> k = COMPONENTSTART) \<and>
      closesCycle (snd (mapEatersToFeeders (run [AddComponent comp_p] init))) (C fc, k) (C ec, k))"
proof -
  let ?g = "run [AddComponent comp_e, AddComponent comp_d, AddComponent comp_c] init"
  let ?h = "run [AddComponent comp_e, AddComponent comp_b] init"
  let ?k = "run [AddComponent comp_d, AddComponent comp_f] init"
  let ?p = "run [AddComponent comp_p] init"
  have p: "parent comp_e = parent comp_c" "parent comp_d \<noteq> parent comp_c"
    by (simp_all add: comp_e_def comp_c_def comp_d_def)
  have ok: "fst (mapEatersToFeeders ?g) = None" by code_simp
  then have r: "mapEatersToFeeders ?g = (None, snd (mapEatersToFeeders ?g))"
    by (metis prod.collapse)
  have cs: "getAllNodesByType (dag ?g) COMPONENTSETUP = [C comp_e, C comp_d, C comp_c]"
    by code_simp
  have st: "hasNode (dag ?g) (C comp_d) COMPONENTSTART" "hasNode (dag ?g) (C comp_c) COMPONENTSTART"
    by code_simp+
  have src: "source comp_c = Some (Str ''a:default'')"
    "''a:default'' \<in> set (sourceList (Str ''a:default''))"
    by (simp_all add: comp_c_def sourceList_def)
  have nm: "name comp_e = feederName ''a:default''" "name comp_d = feederName ''a:default''"
    by (simp_all add: comp_e_def comp_d_def feederName_def)
  have hyp: "\<And>fc. fc = comp_e \<or> fc = comp_d \<Longrightarrow>
      mapEatersToFeeders ?g = (None, snd (mapEatersToFeeders ?g)) \<and>
      C comp_c \<in> set (getAllNodesByType (dag ?g) COMPONENTSETUP) \<and>
      source comp_c = Some (Str ''a:default'') \<and>
      ''a:default'' \<in> set (sourceList (Str ''a:default'')) \<and>
      C fc \<in> set (getAllNodesByType (dag ?g) COMPONENTSETUP) \<and>
      name fc = feederName ''a:default''"
    unfolding cs using r src nm by auto
  have 1: "((C comp_e, COMPONENTSETUP), (C comp_c, COMPONENTSETUP))
     \<in> set (edges (dag (snd (mapEatersToFeeders ?g))))"
    using mapEatersToFeeders_matching[where g = ?g and g' = "snd (mapEatersToFeeders ?g)"
        and ec = comp_c and sv = "Str ''a:default''" and s = "''a:default''" and fc = comp_e]
      hyp[of comp_e]
    by blast
  have 2: "((C comp_d, COMPONENTSTART), (C comp_c, COMPONENTSTART))
     \<in> set (edges (dag (snd (mapEatersToFeeders ?g))))"
    using mapEatersToFeeders_matching[where g = ?g and g' = "snd (mapEatersToFeeders ?g)"
        and ec = comp_c and sv = "Str ''a:default''" and s = "''a:default''" and fc = comp_d]
      hyp[of comp_d] st
    by blast
  have okk: "fst (mapEatersToFeeders ?k) = None" by code_simp
  then have rk: "mapEatersToFeeders ?k = (None, snd (mapEatersToFeeders ?k))"
    by (metis prod.collapse)
  have csk: "getAllNodesByType (dag ?k) COMPONENTSETUP = [C comp_d, C comp_f]"
    by code_simp
  have srcf: "source comp_f = Some (StrList [''a:x'', ''a:y''])"
    "''a:y'' \<in> set (sourceList (StrList [''a:x'', ''a:y'']))"
    by (simp_all add: comp_f_def sourceList_def)
  have nmk: "name comp_d = feederName ''a:y''" "name comp_d = feederName ''a:x''"
    by (simp_all add: comp_d_def feederName_def)
  have hypk: "mapEatersToFeeders ?k = (None, snd (mapEatersToFeeders ?k)) \<and>
      C comp_f \<in> set (getAllNodesByType (dag ?k) COMPONENTSETUP) \<and>
      source comp_f = Some (StrList [''a:x'', ''a:y'']) \<and>
      ''a:y'' \<in> set (sourceList (StrList [''a:x'', ''a:y''])) \<and>
      C comp_d \<in> set (getAllNodesByType (dag ?k) COMPONENTSETUP) \<and>
      name comp_d = feederName ''a:y''"
    unfolding csk using rk srcf nmk by auto
  have 3: "((C comp_d, COMPONENTSETUP), (C comp_f, COMPONENTSETUP))
     \<in> set (edges (dag (snd (mapEatersToFeeders ?k))))"
    using mapEatersToFeeders_matching[where g = ?k and g' = "snd (mapEatersToFeeders ?k)"
        and ec = comp_f and sv = "StrList [''a:x'', ''a:y'']" and s = "''a:y''" and fc = comp_d]
      hypk
    by blast
  have le: "fst (feedercomp_loop [C comp_d] (C comp_f) (feederName ''a:x'') False ?k) = None"
    by code_simp
  have 4: "linked (snd (snd (feedercomp_loop [C comp_d] (C comp_f) (feederName ''a:x'') False ?k)))
     (C comp_d) (C comp_f)"
    using mapEatersToFeeders_matching[where cs = "[C comp_d]" and e = "C comp_f"
        and s = "''a:x''" and ?g0.0 = ?k and fc = comp_d] le nmk(2)
    by (simp del: run.simps)
  have csh: "getAllNodesByType (dag ?h) COMPONENTSETUP = [C comp_e, C comp_b]"
    by code_simp
  have srcb: "source comp_b = Some (StrList [''a'', ''g''])"
    "''g'' \<in> set (sourceList (StrList [''a'', ''g'']))"
    by (simp_all add: comp_b_def sourceList_def)
  have nob: "\<not> (\<exists>fc. C fc \<in> set [C comp_e, C comp_b] \<and> name fc = feederName ''g'')"
    by (auto simp: comp_e_def comp_b_def feederName_def)
  have 5: "fst (mapEatersToFeeders ?h) \<noteq> None"
  proof -
    have "C comp_b \<in> set (getAllNodesByType (dag ?h) COMPONENTSETUP) \<and>
      source comp_b = Some (StrList [''a'', ''g'']) \<and>
      ''g'' \<in> set (sourceList (StrList [''a'', ''g''])) \<and>
      \<not> (\<exists>fc. C fc \<in> set (getAllNodesByType (dag ?h) COMPONENTSETUP) \<and>
             name fc = feederName ''g'')"
      unfolding csh using srcb nob by simp
    then show ?thesis
      using mapEatersToFeeders_matching[where g = ?h and ec = comp_b
          and sv = "StrList [''a'', ''g'']" and s = "''g''"]
      by blast
  qed
  have cyc: "fst (mapEatersToFeeders ?p) = Some WouldCycle" by code_simp
  have d: "WouldCycle \<noteq> AttributeError" "\<And>s. WouldCycle \<noteq> Unresolved s" by simp_all
  have 6: "\<exists>ec sv s fc k.
      C ec \<in> set (getAllNodesByType (dag ?p) COMPONENTSETUP) \<and>
      source ec = Some sv \<and> s \<in> set (sourceList sv) \<and>
      C fc \<in> set (getAllNodesByType (dag ?p) COMPONENTSETUP) \<and>
      name fc = feederName s \<and> (k = COMPONENTSETUP \<or> k = COMPONENTSTART) \<and>
      closesCycle (snd (mapEatersToFeeders ?p)) (C fc, k) (C ec, k)"
    using mapEatersToFeeders_matching[where g = ?p and err = WouldCycle] cyc d
    by blast
  show ?thesis using p 1 2 okk 3 4 5 cyc 6 by blast
qed

section \<open>addClockMaster\<close>

lemma distinct_getAllNodesByType: "distinct (nodes d) \<Longrightarrow> distinct (getAllNodesByType d k)"
  unfolding getAllNodesByType_def
  by (auto simp: distinct_map inj_on_def)

lemma addClockMaster_loop_ok:
  assumes "core g" "(C x, CLOCKMASTER) \<in> set (nodes (dag g))"
    "\<forall>s \<in> set ss. (s, COMPONENTSTART) \<in> set (nodes (dag g))"
    "distinct ss"
    "\<forall>s \<in> set ss. ((C x, CLOCKMASTER), (s, COMPONENTSTART)) \<notin> set (edges (dag g))"
  shows "fst (addClockMaster_loop ss x g) = None \<and>
    core (snd (addClockMaster_loop ss x g)) \<and>
    nodes (dag (snd (addClockMaster_loop ss x g))) = nodes (dag g) \<and>
    state (snd (addClockMaster_loop ss x g)) = state g \<and>
    set (edges (dag (snd (addClockMaster_loop ss x g)))) =
      set (edges (dag g)) \<union>
      {((C x, CLOCKMASTER), (C y, COMPONENTSTART)) | y. C y \<in> set ss \<and> parent y = parent x}"
  using assms
proof (induction ss arbitrary: g)
  case Nil
  then show ?case by simp
next
  case (Cons s ss)
  have wt: "wellTyped (s, COMPONENTSTART)" using Cons.prems(1,3) by (simp add: core_def)
  then obtain sc where sc: "s = C sc" by (cases s) auto
  show ?case
  proof (cases "parent sc = parent x")
    case False
    have "addClockMaster_loop (s # ss) x g = addClockMaster_loop ss x g"
      using sc False by simp
    moreover have "{((C x, CLOCKMASTER), (C y, COMPONENTSTART)) | y. C y \<in> set (s # ss) \<and> parent y = parent x}
        = {((C x, CLOCKMASTER), (C y, COMPONENTSTART)) | y. C y \<in> set ss \<and> parent y = parent x}"
      using sc False by auto
    ultimately show ?thesis using Cons.IH[of g] Cons.prems by simp
  next
    case True
    let ?g1 = "withEdge g (C x, CLOCKMASTER) (s, COMPONENTSTART)"
    have ne: "((C x, CLOCKMASTER), (s, COMPONENTSTART)) \<notin> set (edges (dag g))"
      using Cons.prems(5) by simp
    have sin: "(s, COMPONENTSTART) \<in> set (nodes (dag g))" using Cons.prems(3) by simp
    note ae = addEdge_up_ok[OF Cons.prems(1) Cons.prems(2) sin _ ne]
    have step: "addClockMaster_loop (s # ss) x g = addClockMaster_loop ss x ?g1"
      using sc True ae(1) by simp
    have c1: "core ?g1" using ae(2) by simp
    have p5: "\<forall>s' \<in> set ss. ((C x, CLOCKMASTER), (s', COMPONENTSTART)) \<notin> set (edges (dag ?g1))"
      using Cons.prems(4,5) by auto
    have ih: "fst (addClockMaster_loop ss x ?g1) = None \<and>
      core (snd (addClockMaster_loop ss x ?g1)) \<and>
      nodes (dag (snd (addClockMaster_loop ss x ?g1))) = nodes (dag ?g1) \<and>
      state (snd (addClockMaster_loop ss x ?g1)) = state ?g1 \<and>
      set (edges (dag (snd (addClockMaster_loop ss x ?g1)))) =
        set (edges (dag ?g1)) \<union>
        {((C x, CLOCKMASTER), (C y, COMPONENTSTART)) | y. C y \<in> set ss \<and> parent y = parent x}"
      using Cons.IH[OF c1 _ _ _ p5] Cons.prems(2,3,4) by simp
    have "{((C x, CLOCKMASTER), (C y, COMPONENTSTART)) | y. C y \<in> set (s # ss) \<and> parent y = parent x}
        = insert ((C x, CLOCKMASTER), (s, COMPONENTSTART))
            {((C x, CLOCKMASTER), (C y, COMPONENTSTART)) | y. C y \<in> set ss \<and> parent y = parent x}"
      using sc True by auto
    then show ?thesis unfolding step using ih by simp
  qed
qed

lemma addClockMaster_no_job:
  "\<not> hasNode (dag g) (C x) JOB \<Longrightarrow> addClockMaster g x = (Some PreconditionFailed, g)"
  by (simp add: addClockMaster_def)

lemma addClockMaster_again:
  "hasNode (dag g) (C x) JOB \<Longrightarrow> hasNode (dag g) (C x) CLOCKMASTER \<Longrightarrow>
     addClockMaster g x = (Some AlreadyExists, g)"
  by (simp add: addClockMaster_def DepGraph_addNode_cases)

lemma addClockMaster_fresh:
  assumes i: "inv g" and j: "hasNode (dag g) (C x) JOB" and a: "\<not> hasNode (dag g) (C x) CLOCKMASTER"
  shows "fst (addClockMaster g x) = None \<and>
    nodes (dag (snd (addClockMaster g x))) = nodes (dag g) @ [(C x, CLOCKMASTER)] \<and>
    state (snd (addClockMaster g x)) = (state g)((C x, CLOCKMASTER) \<mapsto> False) \<and>
    set (edges (dag (snd (addClockMaster g x)))) =
      set (edges (dag g)) \<union> {((C x, COMPONENTSETUP), (C x, CLOCKMASTER))} \<union>
      {((C x, CLOCKMASTER), (C y, COMPONENTSTART)) | y.
         hasNode (dag g) (C y) COMPONENTSTART \<and> parent y = parent x}"
proof -
  let ?M = "(C x, CLOCKMASTER)" and ?S = "(C x, COMPONENTSETUP)"
  have c0: "core g" and t0: "triples g" using i by (simp_all add: inv_def)
  have s0: "?S \<in> set (nodes (dag g))" using j t0 by (auto simp: triples_def hasNode_def)
  have m0: "?M \<notin> set (nodes (dag g))" using a by (simp add: hasNode_def)
  define g1 where "g1 = withNode g ?M"
  have c1: "core g1" unfolding g1_def using c0 m0 by (intro core_withNode) auto
  have fresh: "\<And>p q. (p, q) \<in> set (edges (dag g)) \<Longrightarrow> p \<noteq> ?M \<and> q \<noteq> ?M"
    using edge_endpoints[OF c0] m0 by blast
  have ne: "(?S, ?M) \<notin> set (edges (dag g1))" using fresh by (auto simp: g1_def)
  define g2 where "g2 = withEdge g1 ?S ?M"
  have s2: "DepGraph_addEdge g1 (C x) (C x) COMPONENTSETUP CLOCKMASTER = (None, g2)"
    and c2: "core g2"
    unfolding g2_def using addEdge_up_ok[OF c1 _ _ _ ne] s0 by (simp_all add: g1_def)
  have n2: "nodes (dag g2) = nodes (dag g) @ [?M]"
    and e2: "edges (dag g2) = edges (dag g) @ [(?S, ?M)]"
    and st2: "state g2 = (state g)(?M \<mapsto> False)"
    by (simp_all add: g2_def g1_def)
  let ?ss = "getAllNodesByType (dag g2) COMPONENTSTART"
  have res: "addClockMaster g x = addClockMaster_loop ?ss x g2"
    using j a s2 by (simp add: addClockMaster_def DepGraph_addNode_cases g1_def[symmetric])
  have d: "distinct ?ss" using c2 by (simp add: core_def distinct_getAllNodesByType)
  have p3: "\<forall>s \<in> set ?ss. (s, COMPONENTSTART) \<in> set (nodes (dag g2))"
    by (simp add: in_getAllNodesByType hasNode_def)
  have p5: "\<forall>s \<in> set ?ss. (?M, (s, COMPONENTSTART)) \<notin> set (edges (dag g2))"
    using fresh by (auto simp: e2)
  have ss: "\<And>y. C y \<in> set ?ss \<longleftrightarrow> hasNode (dag g) (C y) COMPONENTSTART"
    by (simp add: in_getAllNodesByType hasNode_def n2)
  show ?thesis
    unfolding res
    using addClockMaster_loop_ok[OF c2 _ p3 d p5] n2 e2 st2 ss by auto
qed

text \<open>
  That \<^verbatim>\<open>addClockMaster\<close> creates the clock-master vertex whenever the job vertex is
  present does not hold for a component that is a clock master already: the second
  call raises at \<^verbatim>\<open>addNode\<close> and the liveness of the vertex stays as it was.
\<close>

theorem addClockMaster_again_counterexample:
  "hasNode (dag (run [AddComponent comp_d, AddClockMaster comp_d,
                      SetClockMasterStarted comp_d] init)) (C comp_d) JOB \<and>
   fst (addClockMaster (run [AddComponent comp_d, AddClockMaster comp_d,
                             SetClockMasterStarted comp_d] init) comp_d) = Some AlreadyExists \<and>
   state (snd (addClockMaster (run [AddComponent comp_d, AddClockMaster comp_d,
                             SetClockMasterStarted comp_d] init) comp_d)) (C comp_d, CLOCKMASTER)
     = Some True"
  by code_simp

text \<open>
  C8 (amended). In every graph \<open>g\<close> the public operations can build, \<^verbatim>\<open>addClockMaster(x)\<close>
  \<^item> fails and changes nothing when the vertex \<open>(x, JOB)\<close> is absent;
  \<^item> fails and changes nothing when \<open>(x, JOB)\<close> and \<open>(x, CLOCKMASTER)\<close> are both present;
  \<^item> completes when \<open>(x, JOB)\<close> is present and \<open>(x, CLOCKMASTER)\<close> is absent: it appends
    the vertex \<open>(x, CLOCKMASTER)\<close> with liveness false and adds the edge from
    \<open>(x, COMPONENTSETUP)\<close> to \<open>(x, CLOCKMASTER)\<close> and the edges from \<open>(x, CLOCKMASTER)\<close> to
    \<open>(y, COMPONENTSTART)\<close> for exactly the existing start vertices whose \<open>y\<close> has the
    parent of \<open>x\<close>; no other vertex, edge or liveness entry changes.
\<close>

theorem addClockMaster_effect:
  "(\<not> hasNode (dag (run as init)) (C x) JOB \<longrightarrow>
      addClockMaster (run as init) x = (Some PreconditionFailed, run as init)) \<and>
   (hasNode (dag (run as init)) (C x) JOB \<and> hasNode (dag (run as init)) (C x) CLOCKMASTER \<longrightarrow>
      addClockMaster (run as init) x = (Some AlreadyExists, run as init)) \<and>
   (hasNode (dag (run as init)) (C x) JOB \<and> \<not> hasNode (dag (run as init)) (C x) CLOCKMASTER \<longrightarrow>
      fst (addClockMaster (run as init) x) = None \<and>
      nodes (dag (snd (addClockMaster (run as init) x)))
        = nodes (dag (run as init)) @ [(C x, CLOCKMASTER)] \<and>
      state (snd (addClockMaster (run as init) x))
        = (state (run as init))((C x, CLOCKMASTER) \<mapsto> False) \<and>
      set (edges (dag (snd (addClockMaster (run as init) x)))) =
        set (edges (dag (run as init))) \<union> {((C x, COMPONENTSETUP), (C x, CLOCKMASTER))} \<union>
        {((C x, CLOCKMASTER), (C y, COMPONENTSTART)) | y.
           hasNode (dag (run as init)) (C y) COMPONENTSTART \<and> parent y = parent x})"
  using addClockMaster_no_job addClockMaster_again addClockMaster_fresh[OF inv_reachable]
  by blast

theorem addClockMaster_effect_witness:
  "hasNode (dag (run [AddComponent comp_d, AddComponent comp_c] init)) (C comp_d) JOB \<and>
   \<not> hasNode (dag (run [AddComponent comp_d, AddComponent comp_c] init)) (C comp_d) CLOCKMASTER \<and>
   ((C comp_d, CLOCKMASTER), (C comp_d, COMPONENTSTART))
     \<in> set (edges (dag (snd (addClockMaster
            (run [AddComponent comp_d, AddComponent comp_c] init) comp_d)))) \<and>
   ((C comp_d, CLOCKMASTER), (C comp_c, COMPONENTSTART))
     \<notin> set (edges (dag (snd (addClockMaster
            (run [AddComponent comp_d, AddComponent comp_c] init) comp_d))))"
proof -
  let ?g = "run [AddComponent comp_d, AddComponent comp_c] init"
  have j: "hasNode (dag ?g) (C comp_d) JOB" by code_simp
  have m: "\<not> hasNode (dag ?g) (C comp_d) CLOCKMASTER" by code_simp
  have s: "hasNode (dag ?g) (C comp_d) COMPONENTSTART" by code_simp
  have p: "parent comp_c \<noteq> parent comp_d" by (simp add: comp_c_def comp_d_def)
  have o: "((C comp_d, CLOCKMASTER), (C comp_c, COMPONENTSTART)) \<notin> set (edges (dag ?g))"
    by code_simp
  have e: "set (edges (dag (snd (addClockMaster ?g comp_d)))) =
        set (edges (dag ?g)) \<union> {((C comp_d, COMPONENTSETUP), (C comp_d, CLOCKMASTER))} \<union>
        {((C comp_d, CLOCKMASTER), (C y, COMPONENTSTART)) | y.
           hasNode (dag ?g) (C y) COMPONENTSTART \<and> parent y = parent comp_d}"
    using addClockMaster_effect[of "[AddComponent comp_d, AddComponent comp_c]" comp_d] j m
    by blast
  have 1: "((C comp_d, CLOCKMASTER), (C comp_d, COMPONENTSTART))
     \<in> set (edges (dag (snd (addClockMaster ?g comp_d))))"
    unfolding e using s by blast
  have 2: "((C comp_d, CLOCKMASTER), (C comp_c, COMPONENTSTART))
     \<notin> set (edges (dag (snd (addClockMaster ?g comp_d))))"
    unfolding e using o p by blast
  show ?thesis using j m 1 2 by blast
qed

section \<open>Which operations are all-or-nothing\<close>

text \<open>
  \<^verbatim>\<open>mapEatersToFeeders\<close> is not all-or-nothing: with a component whose source list
  names an existing feeder and then an unknown one, it raises after the edges for the
  first entry have been added, and they stay.
\<close>

theorem mapEatersToFeeders_partial_counterexample:
  "fst (mapEatersToFeeders (run [AddComponent comp_e, AddComponent comp_b] init))
     = Some (Unresolved ''g'') \<and>
   ((C comp_e, COMPONENTSETUP), (C comp_b, COMPONENTSETUP))
     \<notin> set (edges (dag (run [AddComponent comp_e, AddComponent comp_b] init))) \<and>
   ((C comp_e, COMPONENTSETUP), (C comp_b, COMPONENTSETUP))
     \<in> set (edges (dag (snd (mapEatersToFeeders
           (run [AddComponent comp_e, AddComponent comp_b] init)))))"
  by code_simp

lemma setComponentWorker_atomic:
  "fst (setComponentWorker g c w) = None \<or> snd (setComponentWorker g c w) = g"
  by (simp add: setComponentWorker_def DepGraph_addEdge_cases)

lemma addClockMaster_atomic:
  "inv g \<Longrightarrow> fst (addClockMaster g x) = None \<or> snd (addClockMaster g x) = g"
  using addClockMaster_no_job[of g x] addClockMaster_again[of g x] addClockMaster_fresh[of g x]
  by (metis snd_conv)

lemma addComponent_atomic:
  "inv g \<Longrightarrow> fst (addComponent g x) = None \<or> snd (addComponent g x) = g"
  using addComponent_present[of g x] addComponent_absent[of g x] by (metis snd_conv)

text \<open>
  C1 (amended). In every graph the public operations can build, every operation other
  than \<^verbatim>\<open>mapEatersToFeeders\<close> either completes or raises with the graph, its edges and
  the liveness map exactly as before the call. \<^verbatim>\<open>mapEatersToFeeders\<close>, whether it
  completes or raises, leaves the vertices and the liveness map as they were and only
  adds edges; the edges added before a failure are kept.
\<close>

theorem operations_atomic_except_mapping:
  "(a \<noteq> MapEatersToFeeders \<longrightarrow>
      fst (apply_op a (run as init)) = None \<or> snd (apply_op a (run as init)) = run as init) \<and>
   (a = MapEatersToFeeders \<longrightarrow>
      nodes (dag (snd (apply_op a (run as init)))) = nodes (dag (run as init)) \<and>
      state (snd (apply_op a (run as init))) = state (run as init) \<and>
      set (edges (dag (run as init))) \<subseteq> set (edges (dag (snd (apply_op a (run as init))))))"
proof -
  have i: "inv (run as init)" by (rule inv_reachable)
  then have c: "core (run as init)" by (simp add: inv_def)
  show ?thesis
  proof (cases a)
    case (AddClockMaster x)
    then show ?thesis using addClockMaster_atomic[OF i] by simp
  next
    case (AddComponent x)
    then show ?thesis using addComponent_atomic[OF i] by simp
  next
    case (AddWorker w)
    then show ?thesis using addWorker_ok(1)[OF c] by simp
  next
    case (RemoveComponent x)
    then show ?thesis using removeComponent_ok(1)[OF i] by simp
  next
    case (RemoveWorker w)
    then show ?thesis using removeWorker_cases[OF c] by simp
  next
    case (SetComponentWorker x w)
    then show ?thesis using setComponentWorker_atomic by simp
  next
    case MapEatersToFeeders
    then show ?thesis using grows_mapEatersToFeeders[of "run as init"] by (simp add: grows_def)
  qed simp_all
qed

theorem operations_atomic_except_mapping_witness:
  "fst (apply_op (SetComponentWorker comp_d ''w'') (run [AddComponent comp_d] init)) \<noteq> None \<and>
   snd (apply_op (SetComponentWorker comp_d ''w'') (run [AddComponent comp_d] init))
     = run [AddComponent comp_d] init \<and>
   state (snd (apply_op MapEatersToFeeders (run [AddComponent comp_e, AddComponent comp_b] init)))
     = state (run [AddComponent comp_e, AddComponent comp_b] init)"
proof -
  have f: "fst (apply_op (SetComponentWorker comp_d ''w'') (run [AddComponent comp_d] init)) \<noteq> None"
    by code_simp
  show ?thesis
    using operations_atomic_except_mapping[of "SetComponentWorker comp_d ''w''" "[AddComponent comp_d]"]
      operations_atomic_except_mapping[of MapEatersToFeeders "[AddComponent comp_e, AddComponent comp_b]"]
      f
    by blast
qed

section \<open>The topological sort\<close>

lemma set_ready: "set (ready es rem) \<subseteq> set rem"
  by (auto simp: ready_def)

lemma kahn_unfold_empty: "ready es rem = [] \<Longrightarrow> kahn es rem = []"
  by (subst kahn.simps) simp

lemma kahn_unfold_step:
  "ready es rem \<noteq> [] \<Longrightarrow>
     kahn es rem = ready es rem @ kahn es (filter (\<lambda>v. v \<notin> set (ready es rem)) rem)"
  by (subst kahn.simps) simp

lemma set_kahn: "set (kahn es rem) \<subseteq> set rem"
proof (induction es rem rule: kahn.induct)
  case (1 es rem)
  show ?case
  proof (cases "ready es rem = []")
    case True
    then show ?thesis by (simp add: kahn_unfold_empty)
  next
    case False
    then show ?thesis using 1 set_ready[of es rem] by (auto simp: kahn_unfold_step)
  qed
qed

lemma distinct_kahn: "distinct rem \<Longrightarrow> distinct (kahn es rem)"
proof (induction es rem rule: kahn.induct)
  case (1 es rem)
  show ?case
  proof (cases "ready es rem = []")
    case True
    then show ?thesis by (simp add: kahn_unfold_empty)
  next
    case False
    let ?rem' = "filter (\<lambda>v. v \<notin> set (ready es rem)) rem"
    have d1: "distinct (ready es rem)" using 1(2) by (simp add: ready_def)
    have d2: "distinct (kahn es ?rem')" using 1(1)[OF False] 1(2) by simp
    have "set (kahn es ?rem') \<subseteq> set ?rem'" by (rule set_kahn)
    then have "set (ready es rem) \<inter> set (kahn es ?rem') = {}" by auto
    then show ?thesis using d1 d2 False by (simp add: kahn_unfold_step)
  qed
qed

lemma ready_nonempty:
  assumes "acyclic (set es)" "rem \<noteq> []"
  shows "ready es rem \<noteq> []"
proof -
  have "wf (set es)" using assms(1) by (simp add: finite_acyclic_wf)
  moreover obtain x where "x \<in> set rem" using assms(2) by (cases rem) auto
  ultimately obtain z where z: "z \<in> set rem" "\<And>y. (y, z) \<in> set es \<Longrightarrow> y \<notin> set rem"
    by (rule wfE_min) blast
  then have "z \<in> set (ready es rem)" by (auto simp: ready_def)
  then show ?thesis by auto
qed

lemma kahn_complete: "acyclic (set es) \<Longrightarrow> set (kahn es rem) = set rem"
proof (induction es rem rule: kahn.induct)
  case (1 es rem)
  show ?case
  proof (cases "ready es rem = []")
    case True
    then have "rem = []" using ready_nonempty[OF 1(2)] by blast
    then show ?thesis using True by (simp add: kahn_unfold_empty)
  next
    case False
    then show ?thesis using 1 set_ready[of es rem] by (auto simp: kahn_unfold_step)
  qed
qed

lemma kahn_order:
  "(p, v) \<in> set es \<Longrightarrow> p \<in> set rem \<Longrightarrow> v \<in> set (kahn es rem) \<Longrightarrow>
     \<exists>xs ys. kahn es rem = xs @ p # ys \<and> v \<in> set ys"
proof (induction es rem rule: kahn.induct)
  case (1 es rem)
  let ?rem' = "filter (\<lambda>v. v \<notin> set (ready es rem)) rem"
  have ne: "ready es rem \<noteq> []" using 1(4) kahn_unfold_empty[of es rem] by auto
  have k: "kahn es rem = ready es rem @ kahn es ?rem'" by (rule kahn_unfold_step[OF ne])
  have "v \<notin> set (ready es rem)" using 1(2,3) by (auto simp: ready_def)
  then have v: "v \<in> set (kahn es ?rem')" using 1(4) k by simp
  show ?case
  proof (cases "p \<in> set (ready es rem)")
    case True
    then obtain xs ys where "ready es rem = xs @ p # ys" by (meson split_list)
    then have "kahn es rem = xs @ p # (ys @ kahn es ?rem')" using k by simp
    then show ?thesis using v by (metis Un_iff set_append)
  next
    case False
    then have "p \<in> set ?rem'" using 1(3) by simp
    from 1(1)[OF ne 1(2) this v] obtain xs ys where
      "kahn es ?rem' = xs @ p # ys" "v \<in> set ys" by blast
    then have "kahn es rem = (ready es rem @ xs) @ p # ys" using k by simp
    then show ?thesis using \<open>v \<in> set ys\<close> by blast
  qed
qed

lemma sort_dag_props:
  assumes "core g"
  shows "set (sort_dag (dag g)) = set (nodes (dag g))"
    and "distinct (sort_dag (dag g))"
    and "(p, v) \<in> set (edges (dag g)) \<Longrightarrow>
           \<exists>xs ys. sort_dag (dag g) = xs @ p # ys \<and> v \<in> set ys"
proof -
  have a: "acyclic (set (edges (dag g)))" and d: "distinct (nodes (dag g))"
    using assms by (simp_all add: core_def)
  show s: "set (sort_dag (dag g)) = set (nodes (dag g))"
    using kahn_complete[OF a] by (simp add: sort_dag_def)
  show "distinct (sort_dag (dag g))" using distinct_kahn[OF d] by (simp add: sort_dag_def)
  assume e: "(p, v) \<in> set (edges (dag g))"
  then have "p \<in> set (nodes (dag g))" "v \<in> set (nodes (dag g))"
    using edge_endpoints[OF assms] by blast+
  then show "\<exists>xs ys. sort_dag (dag g) = xs @ p # ys \<and> v \<in> set ys"
    using kahn_order[OF e, of "nodes (dag g)"] s by (simp add: sort_dag_def)
qed

section \<open>whatShouldBeStarted\<close>

lemma filter_absent: "x \<notin> set xs \<Longrightarrow> filter (\<lambda>y. y \<noteq> x) xs = xs"
  by (induction xs) auto

lemma remove1_filter: "distinct xs \<Longrightarrow> remove1 x xs = filter (\<lambda>y. y \<noteq> x) xs"
  by (induction xs) (auto simp: filter_absent)

lemma removeOffspring_filter:
  "distinct tbs \<Longrightarrow> removeOffspring os tbs = filter (\<lambda>y. y \<notin> set os) tbs"
  unfolding removeOffspring_def
proof (induction os arbitrary: tbs)
  case Nil
  then show ?case by simp
next
  case (Cons a os)
  have "distinct (remove1 a tbs)" using Cons.prems by simp
  from Cons.IH[OF this] show ?case
    using Cons.prems by (simp add: remove1_filter conj_commute)
qed

lemma prune_filter:
  "distinct tbs \<Longrightarrow>
     prune g obj tbs =
       filter (\<lambda>y. y \<noteq> obj \<and> y \<notin> set (getOffspringTyped (dag g) (fst obj) (snd obj))) tbs"
  by (auto simp: prune_def removeOffspring_filter remove1_filter intro!: filter_cong)

lemma loop_step:
  "whatShouldBeStarted_loop g (obj # rest) tbs =
     (if obj \<notin> set tbs then whatShouldBeStarted_loop g rest tbs
      else if state g obj = None then Inl MissingState
      else if state g obj = Some True then whatShouldBeStarted_loop g rest (remove1 obj tbs)
      else if snd obj = WORKER \<or> snd obj = JOB
        then whatShouldBeStarted_loop g rest (prune g obj tbs)
      else whatShouldBeStarted_loop g rest tbs)"
  by (auto simp: prune_def split: option.splits)

lemma loop_filter:
  "whatShouldBeStarted_loop g rest tbs = Inr L \<Longrightarrow> distinct tbs \<Longrightarrow>
     \<exists>P. L = filter P tbs"
proof (induction rest arbitrary: tbs)
  case Nil
  then have "L = filter (\<lambda>x. True) tbs" by simp
  then show ?case by blast
next
  case (Cons obj rest)
  consider (skip) "whatShouldBeStarted_loop g rest tbs = Inr L"
    | (live) "whatShouldBeStarted_loop g rest (remove1 obj tbs) = Inr L"
    | (prune) "whatShouldBeStarted_loop g rest (prune g obj tbs) = Inr L"
    using Cons.prems(1) unfolding loop_step by (auto split: if_splits)
  then show ?case
  proof cases
    case skip
    then show ?thesis using Cons.IH Cons.prems(2) by blast
  next
    case live
    have "distinct (remove1 obj tbs)" using Cons.prems(2) by simp
    from Cons.IH[OF live this] obtain P where "L = filter P (remove1 obj tbs)" by blast
    then have "L = filter (\<lambda>y. y \<noteq> obj \<and> P y) tbs"
      using Cons.prems(2) by (simp add: remove1_filter conj_commute)
    then show ?thesis by blast
  next
    case prune
    have "distinct (prune g obj tbs)" using Cons.prems(2) by (simp add: prune_filter)
    from Cons.IH[OF prune this] obtain P where "L = filter P (prune g obj tbs)" by blast
    then have "L = filter (\<lambda>y. (y \<noteq> obj \<and>
        y \<notin> set (getOffspringTyped (dag g) (fst obj) (snd obj))) \<and> P y) tbs"
      using Cons.prems(2) by (simp add: prune_filter conj_commute)
    then show ?thesis by blast
  qed
qed

lemma loop_total:
  "\<forall>v \<in> set tbs. state g v \<noteq> None \<Longrightarrow> distinct tbs \<Longrightarrow>
     \<exists>L. whatShouldBeStarted_loop g rest tbs = Inr L"
proof (induction rest arbitrary: tbs)
  case Nil
  then show ?case by simp
next
  case (Cons obj rest)
  have a: "\<forall>v \<in> set (remove1 obj tbs). state g v \<noteq> None" "distinct (remove1 obj tbs)"
    using Cons.prems by (auto simp: remove1_filter)
  have b: "\<forall>v \<in> set (prune g obj tbs). state g v \<noteq> None" "distinct (prune g obj tbs)"
    using Cons.prems by (auto simp: prune_filter)
  show ?case
    unfolding loop_step
    using Cons.IH[OF Cons.prems] Cons.IH[OF a] Cons.IH[OF b] Cons.prems(1) by auto
qed

lemma loop_drops_live:
  "whatShouldBeStarted_loop g rest tbs = Inr L \<Longrightarrow> distinct tbs \<Longrightarrow>
     v \<in> set rest \<Longrightarrow> state g v = Some True \<Longrightarrow> v \<notin> set L"
proof (induction rest arbitrary: tbs)
  case Nil
  then show ?case by simp
next
  case (Cons obj rest)
  consider (skip) "whatShouldBeStarted_loop g rest tbs = Inr L" "obj \<notin> set tbs \<or> state g obj \<noteq> Some True"
    | (live) "whatShouldBeStarted_loop g rest (remove1 obj tbs) = Inr L"
    | (prune) "whatShouldBeStarted_loop g rest (prune g obj tbs) = Inr L" "state g obj \<noteq> Some True"
    using Cons.prems(1) unfolding loop_step by (auto split: if_splits)
  then show ?case
  proof cases
    case skip
    show ?thesis
    proof (cases "v = obj")
      case True
      then have "obj \<notin> set tbs" using skip(2) Cons.prems(4) by simp
      moreover obtain P where "L = filter P tbs" using loop_filter[OF skip(1) Cons.prems(2)] by blast
      ultimately show ?thesis using True by auto
    next
      case False
      then show ?thesis using Cons.IH[OF skip(1) Cons.prems(2)] Cons.prems(3,4) by simp
    qed
  next
    case live
    have d: "distinct (remove1 obj tbs)" using Cons.prems(2) by simp
    show ?thesis
    proof (cases "v = obj")
      case True
      obtain P where "L = filter P (remove1 obj tbs)" using loop_filter[OF live d] by blast
      then show ?thesis using True Cons.prems(2) by (auto simp: remove1_filter)
    next
      case False
      then show ?thesis using Cons.IH[OF live d] Cons.prems(3,4) by simp
    qed
  next
    case prune
    have d: "distinct (prune g obj tbs)" using Cons.prems(2) by (simp add: prune_filter)
    have "v \<noteq> obj" using prune(2) Cons.prems(4) by auto
    then show ?thesis using Cons.IH[OF prune(1) d] Cons.prems(3,4) by simp
  qed
qed

lemma loop_keeps_parent:
  assumes ac: "acyclic (set (edges (dag g)))"
    and e: "(p, v) \<in> set (edges (dag g))"
    and vn: "v \<in> set (nodes (dag g))"
    and pl: "state g p \<noteq> Some True"
  shows "whatShouldBeStarted_loop g rest tbs = Inr L \<Longrightarrow> distinct tbs \<Longrightarrow> v \<in> set L \<Longrightarrow>
     p \<in> set tbs \<Longrightarrow> p \<in> set rest \<or> (snd p \<noteq> WORKER \<and> snd p \<noteq> JOB) \<Longrightarrow> p \<in> set L"
proof (induction rest arbitrary: tbs)
  case Nil
  then show ?case by simp
next
  case (Cons obj rest)
  let ?off = "getOffspringTyped (dag g) (fst obj) (snd obj)"
  have f1: "p = obj \<Longrightarrow> v \<in> set ?off"
  proof -
    assume po: "p = obj"
    have "(p, v) \<in> (set (edges (dag g)))\<^sup>+" using e by (rule r_into_trancl)
    then have "v \<noteq> p" using ac unfolding acyclic_def by blast
    then show ?thesis using e vn po by (auto simp: set_getOffspringTyped)
  qed
  have f2: "p \<in> set ?off \<Longrightarrow> v \<in> set ?off"
  proof -
    assume "p \<in> set ?off"
    then have r: "(obj, p) \<in> (set (edges (dag g)))\<^sup>+" by (simp add: set_getOffspringTyped)
    then have rv: "(obj, v) \<in> (set (edges (dag g)))\<^sup>+" using e by (rule trancl_into_trancl)
    have "v \<noteq> obj" using rv ac unfolding acyclic_def by blast
    then show ?thesis using rv vn by (simp add: set_getOffspringTyped)
  qed
  consider (absent) "whatShouldBeStarted_loop g rest tbs = Inr L" "obj \<notin> set tbs"
    | (live) "whatShouldBeStarted_loop g rest (remove1 obj tbs) = Inr L" "state g obj = Some True"
    | (prune) "whatShouldBeStarted_loop g rest (prune g obj tbs) = Inr L"
    | (keep) "whatShouldBeStarted_loop g rest tbs = Inr L" "snd obj \<noteq> WORKER \<and> snd obj \<noteq> JOB"
    using Cons.prems(1) unfolding loop_step by (auto split: if_splits)
  then show ?case
  proof cases
    case absent
    then have "p \<noteq> obj" using Cons.prems(4) by auto
    then show ?thesis using Cons.IH[OF absent(1) Cons.prems(2,3,4)] Cons.prems(5) by auto
  next
    case live
    then have po: "p \<noteq> obj" using pl by auto
    have d: "distinct (remove1 obj tbs)" using Cons.prems(2) by simp
    have "p \<in> set (remove1 obj tbs)" using po Cons.prems(4) by simp
    then show ?thesis using Cons.IH[OF live(1) d Cons.prems(3)] Cons.prems(5) po by auto
  next
    case prune
    have d: "distinct (prune g obj tbs)" using Cons.prems(2) by (simp add: prune_filter)
    obtain P where "L = filter P (prune g obj tbs)" using loop_filter[OF prune d] by blast
    then have "v \<in> set (prune g obj tbs)" using Cons.prems(3) by simp
    then have vo: "v \<notin> set ?off" using Cons.prems(2) by (simp add: prune_filter)
    then have po: "p \<noteq> obj" "p \<notin> set ?off" using f1 f2 by blast+
    then have "p \<in> set (prune g obj tbs)"
      using Cons.prems(2,4) by (simp add: prune_filter)
    then show ?thesis using Cons.IH[OF prune d Cons.prems(3)] Cons.prems(5) po by auto
  next
    case keep
    then have "p \<in> set rest \<or> (snd p \<noteq> WORKER \<and> snd p \<noteq> JOB)"
      using Cons.prems(5) by auto
    then show ?thesis using Cons.IH[OF keep(1) Cons.prems(2,3,4)] by blast
  qed
qed

lemma whatShouldBeStarted_props:
  assumes c: "core g"
  shows "\<exists>L. whatShouldBeStarted g = Inr L \<and>
     (\<forall>v \<in> set L. state g v = Some False) \<and>
     (\<forall>p v. v \<in> set L \<and> (p, v) \<in> set (edges (dag g)) \<longrightarrow>
        state g p = Some True \<or> (\<exists>xs ys. L = xs @ p # ys \<and> v \<in> set ys))"
proof -
  let ?S = "sort_dag (dag g)"
  note sp = sort_dag_props[OF c]
  have dom: "\<forall>v \<in> set ?S. state g v \<noteq> None"
    using c sp(1) by (auto simp: core_def)
  obtain L where L: "whatShouldBeStarted_loop g ?S ?S = Inr L"
    using loop_total[OF dom sp(2)] by blast
  obtain P where P: "L = filter P ?S" using loop_filter[OF L sp(2)] by blast
  have live: "\<forall>v \<in> set L. state g v = Some False"
  proof
    fix v assume v: "v \<in> set L"
    then have vs: "v \<in> set ?S" using P by simp
    then have "state g v \<noteq> Some True" using loop_drops_live[OF L sp(2) vs] v by blast
    moreover have "state g v \<noteq> None" using dom vs by blast
    ultimately show "state g v = Some False" by (cases "state g v") auto
  qed
  have par: "\<forall>p v. v \<in> set L \<and> (p, v) \<in> set (edges (dag g)) \<longrightarrow>
        state g p = Some True \<or> (\<exists>xs ys. L = xs @ p # ys \<and> v \<in> set ys)"
  proof (intro allI impI)
    fix p v
    assume a: "v \<in> set L \<and> (p, v) \<in> set (edges (dag g))"
    show "state g p = Some True \<or> (\<exists>xs ys. L = xs @ p # ys \<and> v \<in> set ys)"
    proof (cases "state g p = Some True")
      case True
      then show ?thesis by simp
    next
      case False
      have ac: "acyclic (set (edges (dag g)))" using c by (simp add: core_def)
      have pn: "p \<in> set ?S" and vn: "v \<in> set (nodes (dag g))"
        using edge_endpoints[OF c] a sp(1) by blast+
      have pL: "p \<in> set L"
        using loop_keeps_parent[OF ac _ vn False L sp(2)] a pn by blast
      obtain xs ys where s: "?S = xs @ p # ys" "v \<in> set ys" using sp(3) a by blast
      have "P p" "P v" using pL a P by simp_all
      then have "L = filter P xs @ p # filter P ys" "v \<in> set (filter P ys)"
        using P s by simp_all
      then show ?thesis by blast
    qed
  qed
  show ?thesis using L live par by (simp add: whatShouldBeStarted_def)
qed

text \<open>
  C4. In every graph the public operations can build, \<^verbatim>\<open>whatShouldBeStarted\<close> returns a
  list (it does not raise), and no vertex of that list has liveness true: each one has
  the liveness entry false.
\<close>

theorem whatShouldBeStarted_not_live:
  "\<exists>L. whatShouldBeStarted (run as init) = Inr L \<and>
       (\<forall>v \<in> set L. state (run as init) v = Some False)"
proof -
  have "core (run as init)" using inv_reachable[of as] by (simp add: inv_def)
  from whatShouldBeStarted_props[OF this] show ?thesis by blast
qed

theorem whatShouldBeStarted_not_live_witness:
  "whatShouldBeStarted (run [AddComponent comp_d, SetJobStarted comp_d] init)
     = Inr [(C comp_d, COMPONENTSETUP), (C comp_d, COMPONENTSTART)] \<and>
   state (run [AddComponent comp_d, SetJobStarted comp_d] init) (C comp_d, COMPONENTSETUP)
     = Some False"
proof -
  let ?g = "run [AddComponent comp_d, SetJobStarted comp_d] init"
  have val: "whatShouldBeStarted ?g = Inr [(C comp_d, COMPONENTSETUP), (C comp_d, COMPONENTSTART)]"
    by code_simp
  obtain L where L: "whatShouldBeStarted ?g = Inr L"
    and a: "\<forall>v \<in> set L. state ?g v = Some False"
    using whatShouldBeStarted_not_live[of "[AddComponent comp_d, SetJobStarted comp_d]"]
    by blast
  have "Inr L = (Inr [(C comp_d, COMPONENTSETUP), (C comp_d, COMPONENTSTART)] :: error + vertex list)"
    using L val by (rule trans[OF sym])
  then have "(C comp_d, COMPONENTSETUP) \<in> set L" by auto
  then have "state ?g (C comp_d, COMPONENTSETUP) = Some False" using a by blast
  then show ?thesis using val by blast
qed

text \<open>
  C3. In every graph the public operations can build, \<^verbatim>\<open>whatShouldBeStarted\<close> returns a
  list in which every vertex \<open>v\<close> has its prerequisites met: each parent \<open>p\<close> of \<open>v\<close>
  (each vertex with an edge into \<open>v\<close>) has liveness true or stands in the list before
  \<open>v\<close>.
\<close>

theorem whatShouldBeStarted_prerequisites:
  "\<exists>L. whatShouldBeStarted (run as init) = Inr L \<and>
       (\<forall>p v. v \<in> set L \<and> (p, v) \<in> set (edges (dag (run as init))) \<longrightarrow>
          state (run as init) p = Some True \<or> (\<exists>xs ys. L = xs @ p # ys \<and> v \<in> set ys))"
proof -
  have "core (run as init)" using inv_reachable[of as] by (simp add: inv_def)
  from whatShouldBeStarted_props[OF this] show ?thesis by blast
qed

theorem whatShouldBeStarted_prerequisites_witness:
  "whatShouldBeStarted (run [AddComponent comp_e, SetJobStarted comp_e] init)
     = Inr [(C comp_e, COMPONENTSETUP), (C comp_e, COMPONENTSTART)] \<and>
   ((C comp_e, COMPONENTSETUP), (C comp_e, COMPONENTSTART))
     \<in> set (edges (dag (run [AddComponent comp_e, SetJobStarted comp_e] init))) \<and>
   (state (run [AddComponent comp_e, SetJobStarted comp_e] init) (C comp_e, COMPONENTSETUP)
      = Some True \<or>
    (\<exists>xs ys. [(C comp_e, COMPONENTSETUP), (C comp_e, COMPONENTSTART)]
         = xs @ (C comp_e, COMPONENTSETUP) # ys \<and> (C comp_e, COMPONENTSTART) \<in> set ys))"
proof -
  let ?g = "run [AddComponent comp_e, SetJobStarted comp_e] init"
  let ?S = "(C comp_e, COMPONENTSETUP)" and ?T = "(C comp_e, COMPONENTSTART)"
  have val: "whatShouldBeStarted ?g = Inr [?S, ?T]" by code_simp
  have e: "(?S, ?T) \<in> set (edges (dag ?g))" by code_simp
  obtain L where L: "whatShouldBeStarted ?g = Inr L"
    and a: "\<forall>p v. v \<in> set L \<and> (p, v) \<in> set (edges (dag ?g)) \<longrightarrow>
          state ?g p = Some True \<or> (\<exists>xs ys. L = xs @ p # ys \<and> v \<in> set ys)"
    using whatShouldBeStarted_prerequisites[of "[AddComponent comp_e, SetJobStarted comp_e]"]
    by blast
  have "Inr L = (Inr [?S, ?T] :: error + vertex list)"
    using L val by (rule trans[OF sym])
  then have l: "L = [?S, ?T]" by auto
  then have "?T \<in> set L" by auto
  then have "state ?g ?S = Some True \<or> (\<exists>xs ys. L = xs @ ?S # ys \<and> ?T \<in> set ys)"
    using a e by blast
  then show ?thesis using val e unfolding l by blast
qed

end
